theory Spec2Isabelle
  imports Complex_Main
begin

section \<open>Machine integers\<close>

text \<open>
  The program computes indices in three C++ integer types.  They are modelled by
  \<^typ>\<open>int\<close> with the wrap-around written out: \<open>unsigned int\<close> (the built-in
  \<open>threadIdx\<close>, \<open>blockIdx\<close>, \<open>blockDim\<close> and everything computed from them) is
  arithmetic modulo \<open>2 ^ 32\<close>, \<open>size_t\<close> and \<open>unsigned long\<close> are arithmetic modulo
  \<open>2 ^ 64\<close>, and a conversion to \<open>int\<close> takes the two's complement value.  Sums,
  differences and products modulo \<open>2 ^ w\<close> may be reduced once at the end, so an
  expression of one unsigned type is wrapped once as a whole.
\<close>

definition u32 :: "int \<Rightarrow> int" where
  "u32 a = a mod 2 ^ 32"

definition u64 :: "int \<Rightarrow> int" where
  "u64 a = a mod 2 ^ 64"

definition s32 :: "int \<Rightarrow> int" where
  "s32 a = (a + 2 ^ 31) mod 2 ^ 32 - 2 ^ 31"

section \<open>Device arrays and kernel launches\<close>

text \<open>
  A device array is the memory a pointer returned by \<open>malloc_device\<close> points into,
  indexed by the element offset from that pointer.  A \<open>dim3\<close> is its \<open>x\<close> and \<open>y\<close>
  components (the program leaves \<open>z\<close> at 1 and no kernel reads it).
\<close>

type_synonym 'a array = "int \<Rightarrow> 'a"

type_synonym dim3 = "int \<times> int"

text \<open>
  The index values \<open>0 .. d.x - 1\<close> times \<open>0 .. d.y - 1\<close> of a grid or a block.
\<close>

definition indices :: "dim3 \<Rightarrow> dim3 list" where
  "indices d = List.product [0 .. fst d - 1] [0 .. snd d - 1]"

text \<open>
  \<open>kernel<<<gridDim, blockDim>>>(...)\<close> for a kernel without a barrier: every thread
  of every block runs the kernel body once on the device state.  The threads of the
  kernels below write pairwise distinct cells and read none that another thread
  writes, so the order in which the model runs them does not matter.  The limits that
  the CUDA runtime puts on a launch configuration are no part of the program and are
  not modelled: every launch runs.
\<close>

definition launch ::
  "dim3 \<Rightarrow> dim3 \<Rightarrow> (dim3 \<Rightarrow> dim3 \<Rightarrow> dim3 \<Rightarrow> 's \<Rightarrow> 's) \<Rightarrow> 's \<Rightarrow> 's" where
  "launch gridDim blockDim body s =
     fold (\<lambda>blockIdx. fold (body blockDim blockIdx) (indices blockDim)) (indices gridDim) s"

section \<open>The fill kernel\<close>

text \<open>
  \<open>fill\<close> (lines 150-158), the body of one thread.  The pointer \<open>v\<close> is given as the
  array \<open>mem\<close> it points into and its element offset \<open>v\<close> there, so that
  \<open>x0 + nx*(ny-1)\<close> can be passed.  \<open>tid\<close> is an \<open>int\<close> initialised from an
  \<open>unsigned int\<close> expression.
\<close>

fun fill :: "int \<Rightarrow> 'a \<Rightarrow> int \<Rightarrow> dim3 \<Rightarrow> dim3 \<Rightarrow> dim3 \<Rightarrow> 'a array \<Rightarrow> 'a array" where
  "fill v value n (bdx, bdy) (bx, by) (tx, ty) mem =
     (let tid = s32 (u32 (tx + bdx * bx))
      in if tid < n then mem(v + tid := value) else mem)"

text \<open>
  \<open>fill_gpu\<close> (lines 160-166).  \<open>block_dim\<close> is \<open>192ul\<close>, so \<open>n\<close> is converted to
  \<open>unsigned long\<close> in the division and the remainder; the launch converts both
  numbers to the \<open>unsigned int\<close> components of a \<open>dim3\<close>.
\<close>

definition fill_gpu :: "int \<Rightarrow> 'a \<Rightarrow> int \<Rightarrow> 'a array \<Rightarrow> 'a array" where
  "fill_gpu v value n mem =
     (let block_dim = 192;
          grid_dim = u64 (u64 n div block_dim + (if u64 n mod block_dim \<noteq> 0 then 1 else 0))
      in launch (u32 grid_dim, 1) (u32 block_dim, 1) (fill v value n) mem)"

section \<open>The naive stencil kernel\<close>

text \<open>
  \<open>diffusion\<close> (lines 21-35), the body of one thread; the result is the array \<open>x1\<close>
  after the thread has run.  \<open>i\<close>, \<open>j\<close> and \<open>pos\<close> are \<open>unsigned int\<close>; the
  \<open>int\<close> arguments \<open>nx\<close>, \<open>ny\<close> and \<open>width\<close> are converted to \<open>unsigned int\<close>
  where they meet them.  \<open>x0\<close> and \<open>x1\<close> point into two allocations, so they are two
  arrays here.  The cells are IEEE doubles in the program and real numbers here:
  rounding is not modelled.
\<close>

fun diffusion ::
  "real array \<Rightarrow> int \<Rightarrow> int \<Rightarrow> real \<Rightarrow> dim3 \<Rightarrow> dim3 \<Rightarrow> dim3 \<Rightarrow> real array \<Rightarrow> real array" where
  "diffusion x0 nx ny dt (bdx, bdy) (bx, by) (tx, ty) x1 =
     (let i = u32 (tx + bx * bdx);
          j = u32 (ty + by * bdy)
      in if i < u32 nx \<and> j < u32 ny then
           let width = nx + 2;
               pos = u32 ((i + 1) + (j + 1) * width)
           in x1(pos := x0 pos + dt * (- 4 * x0 pos
                   + x0 (u32 (pos - width)) + x0 (u32 (pos + width))
                   + x0 (u32 (pos - 1)) + x0 (u32 (pos + 1))))
         else x1)"

definition launch_diffusion ::
  "dim3 \<Rightarrow> dim3 \<Rightarrow> real array \<Rightarrow> real array \<Rightarrow> int \<Rightarrow> int \<Rightarrow> real \<Rightarrow> real array" where
  "launch_diffusion gridDim blockDim x0 x1 nx ny dt =
     launch gridDim blockDim (diffusion x0 nx ny dt) x1"

section \<open>The tiled stencil kernel\<close>

text \<open>
  \<open>diffusion_shared\<close> (lines 37-71) is split at its barrier.  The staging buffer
  \<open>buffer\<close> is dynamic shared memory: it is not initialised when a block starts, so
  the model keeps the cells the block has written as a partial map and reads a cell
  nobody has written from \<open>garbage\<close>, the content the memory happened to hold.
\<close>

definition shared_read :: "real array \<Rightarrow> (int \<rightharpoonup> real) \<Rightarrow> int \<Rightarrow> real" where
  "shared_read garbage buffer k = (case buffer k of Some c \<Rightarrow> c | None \<Rightarrow> garbage k)"

text \<open>
  Whether a thread executes \<open>__syncthreads()\<close> (line 65): the call stands inside the
  \<open>if(i<nx && j<ny)\<close> of line 44.
\<close>

fun reaches_syncthreads :: "int \<Rightarrow> int \<Rightarrow> dim3 \<Rightarrow> dim3 \<Rightarrow> dim3 \<Rightarrow> bool" where
  "reaches_syncthreads nx ny (bdx, bdy) (bx, by) (tx, ty) =
     (let i = u32 (tx + bx * bdx);
          j = u32 (ty + by * bdy)
      in i < u32 nx \<and> j < u32 ny)"

text \<open>Lines 41-63 of one thread: the loads into the staging buffer.\<close>

fun diffusion_shared_load ::
  "real array \<Rightarrow> int \<Rightarrow> int \<Rightarrow> dim3 \<Rightarrow> dim3 \<Rightarrow> dim3 \<Rightarrow> (int \<rightharpoonup> real) \<Rightarrow> (int \<rightharpoonup> real)" where
  "diffusion_shared_load x0 nx ny (bdx, bdy) (bx, by) (tx, ty) buffer =
     (let i = u32 (tx + bx * bdx);
          j = u32 (ty + by * bdy)
      in if i < u32 nx \<and> j < u32 ny then
           let width = nx + 2;
               shared_width = u32 (bdx + 2);
               pos = u32 ((i + 1) + (j + 1) * width);
               shared_pos = u32 ((tx + 1) + (ty + 1) * shared_width);
               buffer = buffer(shared_pos \<mapsto> x0 pos);
               buffer = (if tx = 0
                         then buffer(u32 (shared_pos - 1) \<mapsto> x0 (u32 (pos - 1)))
                         else buffer);
               buffer = (if tx = u32 (bdx - 1)
                         then buffer(u32 (shared_pos + 1) \<mapsto> x0 (u32 (pos + 1)))
                         else buffer);
               buffer = (if ty = 0
                         then buffer(u32 (shared_pos - shared_width) \<mapsto> x0 (u32 (pos - width)))
                         else buffer);
               buffer = (if ty = u32 (bdy - 1)
                         then buffer(u32 (shared_pos + shared_width) \<mapsto> x0 (u32 (pos + width)))
                         else buffer)
           in buffer
         else buffer)"

text \<open>Lines 67-69 of one thread: the update, read from the staging buffer.\<close>

fun diffusion_shared_compute ::
  "real array \<Rightarrow> (int \<rightharpoonup> real) \<Rightarrow> int \<Rightarrow> int \<Rightarrow> real \<Rightarrow> dim3 \<Rightarrow> dim3 \<Rightarrow> dim3 \<Rightarrow>
     real array \<Rightarrow> real array" where
  "diffusion_shared_compute garbage buffer nx ny dt (bdx, bdy) (bx, by) (tx, ty) x1 =
     (let i = u32 (tx + bx * bdx);
          j = u32 (ty + by * bdy)
      in if i < u32 nx \<and> j < u32 ny then
           let width = nx + 2;
               shared_width = u32 (bdx + 2);
               pos = u32 ((i + 1) + (j + 1) * width);
               shared_pos = u32 ((tx + 1) + (ty + 1) * shared_width);
               b = shared_read garbage buffer
           in x1(pos := b shared_pos + dt * (- 4 * b shared_pos
                   + b (u32 (shared_pos - shared_width)) + b (u32 (shared_pos + shared_width))
                   + b (u32 (shared_pos - 1)) + b (u32 (shared_pos + 1))))
         else x1)"

text \<open>
  One block of the kernel: its threads stage, pass the barrier, and compute.  The
  barrier is modelled as the hardware runs it when every thread of the block arrives
  or leaves the kernel: all loads of the block come before all its reads.  \<open>stage\<close>
  is the staging buffer of a block at the barrier.
\<close>

definition stage :: "real array \<Rightarrow> int \<Rightarrow> int \<Rightarrow> dim3 \<Rightarrow> dim3 \<Rightarrow> (int \<rightharpoonup> real)" where
  "stage x0 nx ny blockDim blockIdx =
     fold (diffusion_shared_load x0 nx ny blockDim blockIdx) (indices blockDim) Map.empty"

definition diffusion_shared ::
  "real array \<Rightarrow> int \<Rightarrow> int \<Rightarrow> real \<Rightarrow> (dim3 \<Rightarrow> real array) \<Rightarrow> dim3 \<Rightarrow> dim3 \<Rightarrow>
     real array \<Rightarrow> real array" where
  "diffusion_shared x0 nx ny dt garbage blockDim blockIdx x1 =
     (let buffer = stage x0 nx ny blockDim blockIdx
      in fold (diffusion_shared_compute (garbage blockIdx) buffer nx ny dt blockDim blockIdx)
           (indices blockDim) x1)"

text \<open>
  The staging-buffer cells that the update of lines 67-69 reads, in the order of the
  expression: \<open>buffer[shared_pos]\<close>, \<open>buffer[shared_pos-shared_width]\<close>,
  \<open>buffer[shared_pos+shared_width]\<close>, \<open>buffer[shared_pos-1]\<close> and
  \<open>buffer[shared_pos+1]\<close>.  Lemma \<open>compute_reads\<close> below relates the list to
  \<open>diffusion_shared_compute\<close>: the value a thread writes is the formula on these five
  cells.
\<close>

fun diffusion_shared_reads :: "dim3 \<Rightarrow> dim3 \<Rightarrow> int list" where
  "diffusion_shared_reads (bdx, bdy) (tx, ty) =
     (let shared_width = u32 (bdx + 2);
          shared_pos = u32 ((tx + 1) + (ty + 1) * shared_width)
      in [shared_pos, u32 (shared_pos - shared_width), u32 (shared_pos + shared_width),
          u32 (shared_pos - 1), u32 (shared_pos + 1)])"

text \<open>
  \<open>diffusion_shared<<<gridDim, blockDim, shared_size>>>(...)\<close>: every block of the
  grid runs the kernel.  \<open>shared_size\<close> is the number of bytes the launch gives the
  staging buffer of a block; the buffer is a map on all cell indices here, so the
  number has no effect on what the blocks compute.  \<open>garbage\<close> is the content the
  shared memory of each block holds when the block starts.
\<close>

definition launch_diffusion_shared ::
  "dim3 \<Rightarrow> dim3 \<Rightarrow> int \<Rightarrow> (dim3 \<Rightarrow> real array) \<Rightarrow>
     real array \<Rightarrow> real array \<Rightarrow> int \<Rightarrow> int \<Rightarrow> real \<Rightarrow> real array" where
  "launch_diffusion_shared gridDim blockDim shared_size garbage x0 x1 nx ny dt =
     fold (diffusion_shared x0 nx ny dt garbage blockDim) (indices gridDim) x1"

section \<open>The time-stepping driver\<close>

text \<open>
  What \<open>main\<close> takes from its surroundings: the content shared memory holds when
  a block of a time step starts, and the content of the two fresh device allocations.
\<close>

record device =
  shared_garbage :: "nat \<Rightarrow> dim3 \<Rightarrow> real array"
  malloc_x0 :: "real array"
  malloc_x1 :: "real array"

record outcome =
  x_host :: "real list"
  exit_status :: int

text \<open>
  Modelled from the spec: \<open>copy_to_host\<close> of \<open>util.h\<close>, which is not among the
  sources; it copies a device buffer to a host buffer of equal size.
\<close>

definition copy_to_host :: "'a array \<Rightarrow> int \<Rightarrow> 'a list" where
  "copy_to_host from n = map from [0 .. n - 1]"

text \<open>
  The body of the loop of lines 120-132 for the pointers \<open>(x0, x1)\<close>: one launch,
  then \<open>std::swap(x0, x1)\<close>.  The kernels take \<open>nx-2\<close> and \<open>ny-2\<close>, \<open>size_t\<close>
  values, as \<open>int\<close>.
\<close>

definition time_step ::
  "device \<Rightarrow> bool \<Rightarrow> dim3 \<Rightarrow> dim3 \<Rightarrow> int \<Rightarrow> int \<Rightarrow> real \<Rightarrow> nat \<Rightarrow>
     real array \<times> real array \<Rightarrow> real array \<times> real array" where
  "time_step dev use_shared grid_dim block_dim nx ny dt step xs =
     (case xs of (x0, x1) \<Rightarrow>
        let x1 =
          (if use_shared then
             let shared_size = u64 (u32 ((fst block_dim + 2) * (snd block_dim + 2)) * 8)
             in launch_diffusion_shared grid_dim block_dim shared_size
                  (shared_garbage dev step) x0 x1 (s32 (u64 (nx - 2))) (s32 (u64 (ny - 2))) dt
           else
             launch_diffusion grid_dim block_dim x0 x1 (s32 (u64 (nx - 2))) (s32 (u64 (ny - 2))) dt)
        in (x1, x0))"

text \<open>
  \<open>main\<close> (lines 73-148) for the arguments \<open>pow\<close>, \<open>nsteps\<close> and \<open>use_shared\<close>
  that \<open>read_arg\<close> returns.  \<open>1 << pow\<close> is a shift of an \<open>int\<close>, undefined from
  \<open>pow = 31\<close> on: the model has no result there.  \<open>nx\<close>, \<open>ny\<close> and
  \<open>buffer_size\<close> are \<open>size_t\<close>; \<open>fill_gpu\<close> takes its count as \<open>int\<close>.
\<close>

definition main :: "device \<Rightarrow> nat \<Rightarrow> nat \<Rightarrow> bool \<Rightarrow> outcome option" where
  "main dev pow nsteps use_shared =
     (if 31 \<le> pow then None
      else
        let nx = u64 (128 + 2);
            ny = u64 (s32 (2 ^ pow) + 2);
            dt = 0.1;
            buffer_size = u64 (nx * ny);
            x0 = malloc_x0 dev;
            x1 = malloc_x1 dev;
            x0 = fill_gpu 0 0 (s32 buffer_size) x0;
            x1 = fill_gpu 0 0 (s32 buffer_size) x1;
            x0 = fill_gpu 0 1 (s32 nx) x0;
            x1 = fill_gpu 0 1 (s32 nx) x1;
            x0 = fill_gpu (u64 (nx * (ny - 1))) 1 (s32 nx) x0;
            x1 = fill_gpu (u64 (nx * (ny - 1))) 1 (s32 nx) x1;
            block_dim = (16, 16);
            grid_dim = (u32 (u64 (nx - 2 + fst block_dim - 1) div fst block_dim),
                        u32 (u64 (ny - 2 + snd block_dim - 1) div snd block_dim));
            xs = fold (time_step dev use_shared grid_dim block_dim nx ny dt) [0 ..< nsteps] (x0, x1)
        in Some \<lparr>x_host = copy_to_host (fst xs) buffer_size, exit_status = 0\<rparr>)"

section \<open>Notions for the statements and proofs\<close>

text \<open>
  The linear index of the interior coordinate \<open>(i, j)\<close> in the padded layout of
  interior width \<open>nx\<close>, and the update formula read at a cell of an array.
\<close>

definition cell :: "int \<Rightarrow> int \<Rightarrow> int \<Rightarrow> int" where
  "cell nx i j = (i + 1) + (j + 1) * (nx + 2)"

definition stencil :: "real array \<Rightarrow> real \<Rightarrow> int \<Rightarrow> int \<Rightarrow> real" where
  "stencil x0 dt width pos =
     x0 pos + dt * (- 4 * x0 pos + x0 (pos - width) + x0 (pos + width) + x0 (pos - 1) + x0 (pos + 1))"

text \<open>The cell in column \<open>c\<close> of row \<open>r\<close> of a row-major array of width \<open>w\<close>.\<close>

definition lin :: "int \<Rightarrow> int \<Rightarrow> int \<Rightarrow> int" where
  "lin w c r = c + r * w"

text \<open>The staging-buffer coordinates a thread loads, in the order of lines 51-63.\<close>

definition coords :: "dim3 \<Rightarrow> dim3 \<Rightarrow> (int \<times> int) list" where
  "coords bd t =
     (case bd of (bdx, bdy) \<Rightarrow> case t of (tx, ty) \<Rightarrow>
        [(tx + 1, ty + 1)]
        @ (if tx = 0 then [(0, ty + 1)] else [])
        @ (if tx = bdx - 1 then [(bdx + 1, ty + 1)] else [])
        @ (if ty = 0 then [(tx + 1, 0)] else [])
        @ (if ty = bdy - 1 then [(tx + 1, bdy + 1)] else []))"

text \<open>The loads of a thread as a list of staging-buffer cells with their values.\<close>

definition loads :: "real array \<Rightarrow> int \<Rightarrow> int \<Rightarrow> dim3 \<Rightarrow> dim3 \<Rightarrow> dim3 \<Rightarrow> (int \<times> real) list" where
  "loads x0 nx ny bd b t =
     (case bd of (bdx, bdy) \<Rightarrow> case b of (bx, by) \<Rightarrow> case t of (tx, ty) \<Rightarrow>
        if tx + bx * bdx < nx \<and> ty + by * bdy < ny
        then map (\<lambda>(a, r). (lin (bdx + 2) a r, x0 (lin (nx + 2) (bx * bdx + a) (by * bdy + r))))
               (coords bd t)
        else [])"

text \<open>
  What the tiled kernel writes to the interior cell \<open>(i, j)\<close>: the update formula, with
  the east and south operands taken from the uninitialised part of the staging buffer
  where no thread of the block has loaded them.
\<close>

definition tiled_value ::
  "real array \<Rightarrow> (dim3 \<Rightarrow> real array) \<Rightarrow> int \<Rightarrow> int \<Rightarrow> real \<Rightarrow> dim3 \<Rightarrow> int \<Rightarrow> int \<Rightarrow> real" where
  "tiled_value x0 garbage nx ny dt bd i j =
     (case bd of (bdx, bdy) \<Rightarrow>
        let P = cell nx i j; tx = i mod bdx; ty = j mod bdy;
            g = garbage (i div bdx, j div bdy); S = cell bdx tx ty;
            e = (if tx = bdx - 1 \<or> i + 1 < nx then x0 (P + 1) else g (S + 1));
            s = (if ty = bdy - 1 \<or> j + 1 < ny then x0 (P + (nx + 2)) else g (S + (bdx + 2)))
        in x0 P + dt * (- 4 * x0 P + x0 (P - (nx + 2)) + s + x0 (P - 1) + e))"

text \<open>The grid after the six fills of lines 100-107: boundary rows 1, every other cell 0.\<close>

definition initial :: "nat \<Rightarrow> int \<Rightarrow> real" where
  "initial pow k = (if k < 130 \<or> 130 * (2 ^ pow + 1) \<le> k then 1 else 0)"

text \<open>The six fills of one buffer, in the order in which lines 100-107 apply them to it.\<close>

definition init_fills :: "nat \<Rightarrow> real array \<Rightarrow> real array" where
  "init_fills pow m =
     fill_gpu (130 * (2 ^ pow + 1)) 1 130 (fill_gpu 0 1 130 (fill_gpu 0 0 (130 * (2 ^ pow + 2)) m))"

text \<open>Both buffers hold 1 in the two boundary rows.\<close>

definition boundary_rows :: "nat \<Rightarrow> real array \<times> real array \<Rightarrow> bool" where
  "boundary_rows pow xs =
     (\<forall>k. 0 \<le> k \<and> k < 130 * (2 ^ pow + 2) \<and> (k < 130 \<or> 130 * (2 ^ pow + 1) \<le> k) \<longrightarrow>
          fst xs k = 1 \<and> snd xs k = 1)"

text \<open>Every cell of both buffers lies in the unit interval.\<close>

definition in_unit_interval :: "nat \<Rightarrow> real array \<times> real array \<Rightarrow> bool" where
  "in_unit_interval pow xs =
     (\<forall>k. 0 \<le> k \<and> k < 130 * (2 ^ pow + 2) \<longrightarrow>
          (0 \<le> fst xs k \<and> fst xs k \<le> 1) \<and> (0 \<le> snd xs k \<and> snd xs k \<le> 1))"

section \<open>Wrap-around and launches: auxiliary facts\<close>

lemma u32_id: "0 \<le> a \<Longrightarrow> a < 2 ^ 32 \<Longrightarrow> u32 a = a"
  by (simp add: u32_def)

lemma set_indices: "set (indices d) = {0 .. fst d - 1} \<times> {0 .. snd d - 1}"
  by (simp add: indices_def)

lemma fold_product:
  "fold (\<lambda>b. fold (f b) ts) bs s = fold (\<lambda>(b, t). f b t) (List.product bs ts) s"
proof (induction bs arbitrary: s)
  case Nil
  then show ?case by simp
next
  case (Cons b bs)
  have "fold (\<lambda>(b, t). f b t) (map (Pair b) ts) s = fold (f b) ts s"
    by (simp add: fold_map comp_def)
  with Cons show ?case by simp
qed

lemma launch_product:
  "launch g b body s =
     fold (\<lambda>(bi, ti). body b bi ti) (List.product (indices g) (indices b)) s"
  by (simp add: launch_def fold_product)

lemma fold_writes_other:
  assumes "\<And>t m. t \<in> set ts \<Longrightarrow> body t m = (if g t then m(kf t := vf t) else m)"
    and "\<And>t. t \<in> set ts \<Longrightarrow> g t \<Longrightarrow> kf t \<noteq> k"
  shows "fold body ts m k = m k"
  using assms by (induction ts rule: rev_induct) auto

lemma fold_writes_hit:
  assumes "\<And>t m. t \<in> set ts \<Longrightarrow> body t m = (if g t then m(kf t := vf t) else m)"
    and "t0 \<in> set ts" and "g t0" and "kf t0 = k"
    and "\<And>t. t \<in> set ts \<Longrightarrow> g t \<Longrightarrow> kf t = k \<Longrightarrow> vf t = v"
  shows "fold body ts m k = v"
  using assms
proof (induction ts rule: rev_induct)
  case Nil
  then show ?case by simp
next
  case (snoc x xs)
  show ?case
  proof (cases "g x \<and> kf x = k")
    case True
    then show ?thesis using snoc.prems by simp
  next
    case False
    then have "t0 \<in> set xs" using snoc.prems by auto
    then have "fold body xs m k = v"
      using snoc by auto
    then show ?thesis using False snoc.prems(1)[of x] by auto
  qed
qed

lemma s32_id: "- (2 ^ 31) \<le> a \<Longrightarrow> a < 2 ^ 31 \<Longrightarrow> s32 a = a"
  by (simp add: s32_def)

lemma u64_id: "0 \<le> a \<Longrightarrow> a < 2 ^ 64 \<Longrightarrow> u64 a = a"
  by (simp add: u64_def)

lemma idiv_less:
  fixes a d g :: int
  assumes "0 < d" and "a < d * g"
  shows "a div d < g"
proof -
  have "0 \<le> a mod d" using assms(1) by simp
  moreover have "d * (a div d) + a mod d = a" by simp
  ultimately have "d * (a div d) \<le> a" by linarith
  then have "d * (a div d) < d * g" using assms(2) by linarith
  then show ?thesis using assms(1) by (simp add: mult_less_cancel_left_pos)
qed

lemma fill_grid:
  assumes "0 \<le> n" and "n \<le> 2147483520"
  defines "g \<equiv> n div 192 + (if n mod 192 \<noteq> 0 then 1 else 0)"
  shows "u32 (u64 (u64 n div 192 + (if u64 n mod 192 \<noteq> 0 then 1 else 0))) = g"
    and "0 \<le> g" and "192 * g \<le> 2 ^ 31" and "n \<le> 192 * g"
proof -
  have n: "u64 n = n" using assms by (simp add: u64_id)
  show g0: "0 \<le> g" using assms by (simp add: g_def pos_imp_zdiv_nonneg_iff)
  define q r where "q = n div 192" and "r = n mod 192"
  have qr: "n = 192 * q + r" "0 \<le> r" "r < 192" by (simp_all add: q_def r_def)
  have gq: "g = q + (if r \<noteq> 0 then 1 else 0)" by (simp add: g_def q_def r_def)
  show le: "192 * g \<le> 2 ^ 31" using assms qr unfolding gq by (simp split: if_splits)
  show "n \<le> 192 * g" using qr unfolding gq by (simp split: if_splits)
  have "u64 g = g" using g0 le by (intro u64_id) auto
  moreover have "u32 g = g" using g0 le by (intro u32_id) auto
  ultimately show "u32 (u64 (u64 n div 192 + (if u64 n mod 192 \<noteq> 0 then 1 else 0))) = g"
    by (simp add: n g_def)
qed

lemma fill_gpu_cell:
  assumes "0 \<le> n" and "n \<le> 2147483520"
  shows "fill_gpu v value n mem k = (if v \<le> k \<and> k < v + n then value else mem k)"
proof -
  define g where "g = n div 192 + (if n mod 192 \<noteq> 0 then 1 else 0)"
  note G = fill_grid[OF assms, folded g_def]
  let ?ts = "List.product (indices (g, 1)) (indices (192, 1))"
  let ?body = "\<lambda>(bi, ti). fill v value n (192, 1) bi ti"
  let ?g = "\<lambda>(bi, ti). fst ti + 192 * fst bi < n"
  let ?kf = "\<lambda>(bi, ti). v + (fst ti + 192 * fst bi)"
  have run: "fill_gpu v value n mem = fold ?body ?ts mem"
    using G(1) by (simp add: fill_gpu_def launch_product u32_id g_def)
  have tid: "s32 (u32 (tx + 192 * bx)) = tx + 192 * bx"
    if "0 \<le> bx" "bx \<le> g - 1" "0 \<le> tx" "tx \<le> 191" for bx tx
  proof -
    have "0 \<le> tx + 192 * bx" "tx + 192 * bx < 2 ^ 31" using that G(3) by auto
    then show ?thesis by (simp add: u32_id s32_id)
  qed
  have body: "?body t m = (if ?g t then m(?kf t := (\<lambda>_. value) t) else m)"
    if "t \<in> set ?ts" for t m
  proof -
    obtain bx by' tx ty where t: "t = ((bx, by'), (tx, ty))"
      by (metis surj_pair)
    show ?thesis using that unfolding t by (simp add: set_indices tid)
  qed
  show ?thesis
  proof (cases "v \<le> k \<and> k < v + n")
    case True
    define t0 :: "dim3 \<times> dim3" where "t0 = (((k - v) div 192, 0), ((k - v) mod 192, 0))"
    have "(k - v) div 192 \<le> g - 1"
    proof -
      have "k - v < 192 * g" using True G(4) by simp
      then have "(k - v) div 192 < g" by (intro idiv_less) auto
      then show ?thesis by simp
    qed
    moreover have "0 \<le> (k - v) div 192" using True by (simp add: pos_imp_zdiv_nonneg_iff)
    ultimately have in_ts: "t0 \<in> set ?ts" by (simp add: t0_def set_indices)
    have "fold ?body ?ts mem k = value"
      by (rule fold_writes_hit[where g = ?g and kf = ?kf and vf = "\<lambda>_. value" and ?t0.0 = t0, OF body in_ts])
         (use True in \<open>auto simp: t0_def\<close>)
    then show ?thesis using True run by simp
  next
    case False
    have "fold ?body ?ts mem k = mem k"
      by (rule fold_writes_other[where g = ?g and kf = ?kf and vf = "\<lambda>_. value", OF body])
         (use False in \<open>auto simp: set_indices\<close>)
    then show ?thesis using False run by auto
  qed
qed

lemma fill_gpu_above:
  assumes "v + n \<le> k"
  shows "fill_gpu v value n mem k = mem k"
  unfolding fill_gpu_def Let_def launch_product
proof (rule fold_writes_other[where g = "\<lambda>(bi, ti). s32 (u32 (fst ti + u32 192 * fst bi)) < n"
      and kf = "\<lambda>(bi, ti). v + s32 (u32 (fst ti + u32 192 * fst bi))" and vf = "\<lambda>_. value"])
  fix t :: "dim3 \<times> dim3" and m :: "'a array"
  obtain bx by' tx ty where t: "t = ((bx, by'), (tx, ty))"
    by (metis surj_pair)
  show "(case t of (bi, ti) \<Rightarrow> fill v value n (u32 192, 1) bi ti) m =
          (if (case t of (bi, ti) \<Rightarrow> s32 (u32 (fst ti + u32 192 * fst bi)) < n)
           then m((case t of (bi, ti) \<Rightarrow> v + s32 (u32 (fst ti + u32 192 * fst bi))) := value)
           else m)"
    unfolding t by (simp add: Let_def)
  assume "case t of (bi, ti) \<Rightarrow> s32 (u32 (fst ti + u32 192 * fst bi)) < n"
  then show "(case t of (bi, ti) \<Rightarrow> v + s32 (u32 (fst ti + u32 192 * fst bi))) \<noteq> k"
    using assms unfolding t by simp
qed

section \<open>The naive kernel, thread by thread and as a launch\<close>

lemma u32_nonneg: "0 \<le> u32 a"
  by (simp add: u32_def)

lemma cell_bounds:
  assumes "0 \<le> i" and "i < nx" and "0 \<le> j" and "j < ny"
  shows "nx + 3 \<le> cell nx i j" and "cell nx i j + (nx + 2) < (nx + 2) * (ny + 2)"
proof -
  define p where "p = (j + 1) * (nx + 2)"
  define q where "q = ny * (nx + 2)"
  have w: "0 \<le> nx + 2" using assms by simp
  have "1 * (nx + 2) \<le> (j + 1) * (nx + 2)"
    using assms w by (intro mult_right_mono) auto
  then have 1: "nx + 2 \<le> p" by (simp add: p_def)
  have "(j + 1) * (nx + 2) \<le> ny * (nx + 2)"
    using assms w by (intro mult_right_mono) auto
  then have 2: "p \<le> q" by (simp add: p_def q_def)
  have 3: "(nx + 2) * (ny + 2) = q + 2 * (nx + 2)"
    by (simp add: q_def algebra_simps)
  have c: "cell nx i j = i + 1 + p" by (simp add: cell_def p_def)
  show "nx + 3 \<le> cell nx i j" using 1 assms unfolding c by arith
  show "cell nx i j + (nx + 2) < (nx + 2) * (ny + 2)"
    using 2 assms unfolding c 3 by arith
qed

lemma cell_inj:
  fixes w :: int
  assumes "0 \<le> c" and "c < w" and "0 \<le> c'" and "c' < w" and "c + r * w = c' + r' * w"
  shows "c = c' \<and> r = r'"
proof -
  have a: "(c + r * w) mod w = c" and b: "(c' + r' * w) mod w = c'"
    using assms(1-4) by simp_all
  have "c = (c + r * w) mod w" by (rule a[symmetric])
  also have "\<dots> = (c' + r' * w) mod w" by (simp only: assms(5))
  also have "\<dots> = c'" by (rule b)
  finally have c: "c = c'" .
  then have "r * w = r' * w" using assms(5) by simp
  then show ?thesis using c assms by simp
qed

lemma size_bounds:
  fixes nx ny :: int
  assumes "0 \<le> nx" and "0 \<le> ny" and "(nx + 2) * (ny + 2) \<le> 2 ^ 32"
  shows "nx < 2 ^ 32" and "ny < 2 ^ 32"
proof -
  have "(nx + 2) * 2 \<le> (nx + 2) * (ny + 2)" using assms by (intro mult_left_mono) auto
  then show "nx < 2 ^ 32" using assms by simp
  have "2 * (ny + 2) \<le> (nx + 2) * (ny + 2)" using assms by (intro mult_right_mono) auto
  then show "ny < 2 ^ 32" using assms by simp
qed

lemma diffusion_thread:
  assumes "0 \<le> nx" and "0 \<le> ny" and "(nx + 2) * (ny + 2) \<le> 2 ^ 32"
  shows "diffusion x0 nx ny dt (bdx, bdy) (bx, by) (tx, ty) x1 =
     (if u32 (tx + bx * bdx) < nx \<and> u32 (ty + by * bdy) < ny
      then x1(cell nx (u32 (tx + bx * bdx)) (u32 (ty + by * bdy)) :=
                stencil x0 dt (nx + 2) (cell nx (u32 (tx + bx * bdx)) (u32 (ty + by * bdy))))
      else x1)"
proof -
  define i j where "i = u32 (tx + bx * bdx)" and "j = u32 (ty + by * bdy)"
  have n: "u32 nx = nx" "u32 ny = ny" using size_bounds[OF assms] assms by (simp_all add: u32_id)
  show ?thesis
  proof (cases "i < nx \<and> j < ny")
    case False
    then show ?thesis using n by (auto simp: i_def j_def Let_def)
  next
    case True
    have ij: "0 \<le> i" "0 \<le> j" by (simp_all add: i_def j_def u32_nonneg)
    note b = cell_bounds[OF ij(1) _ ij(2), of nx ny] 
    have b1: "nx + 3 \<le> cell nx i j" and b2: "cell nx i j + (nx + 2) < 2 ^ 32"
      using b True assms(3) by auto
    have p: "u32 (i + 1 + (j + 1) * (nx + 2)) = cell nx i j"
      using b1 b2 assms by (simp add: cell_def[symmetric] u32_id)
    have q: "u32 (cell nx i j - (nx + 2)) = cell nx i j - (nx + 2)"
      "u32 (cell nx i j + (nx + 2)) = cell nx i j + (nx + 2)"
      "u32 (cell nx i j - 1) = cell nx i j - 1"
      "u32 (cell nx i j + 1) = cell nx i j + 1"
      using b1 b2 assms by (simp_all add: u32_id)
    show ?thesis using True n
      by (simp add: i_def[symmetric] j_def[symmetric] p q stencil_def Let_def)
  qed
qed

lemma diffusion_body:
  assumes "0 \<le> nx" and "0 \<le> ny" and "(nx + 2) * (ny + 2) \<le> 2 ^ 32"
  shows "(case t of (bi, ti) \<Rightarrow> diffusion x0 nx ny dt (bdx, bdy) bi ti) m =
     (if (case t of ((bx, by), (tx, ty)) \<Rightarrow> u32 (tx + bx * bdx) < nx \<and> u32 (ty + by * bdy) < ny)
      then m((case t of ((bx, by), (tx, ty)) \<Rightarrow> cell nx (u32 (tx + bx * bdx)) (u32 (ty + by * bdy))) :=
               (case t of ((bx, by), (tx, ty)) \<Rightarrow>
                  stencil x0 dt (nx + 2) (cell nx (u32 (tx + bx * bdx)) (u32 (ty + by * bdy)))))
      else m)"
proof -
  obtain bx "by" tx ty where t: "t = ((bx, by), (tx, ty))"
    by (metis surj_pair)
  show ?thesis unfolding t using diffusion_thread[OF assms] by simp
qed

lemma launch_diffusion_frame:
  assumes "0 \<le> nx" and "0 \<le> ny" and "(nx + 2) * (ny + 2) \<le> 2 ^ 32"
    and "\<And>i j. 0 \<le> i \<Longrightarrow> i < nx \<Longrightarrow> 0 \<le> j \<Longrightarrow> j < ny \<Longrightarrow> k \<noteq> cell nx i j"
  shows "launch_diffusion gridDim blockDim x0 x1 nx ny dt k = x1 k"
proof -
  obtain bdx bdy where b: "blockDim = (bdx, bdy)" by (metis surj_pair)
  show ?thesis
    unfolding launch_diffusion_def launch_product b
  proof (rule fold_writes_other[OF diffusion_body[OF assms(1-3)]])
    fix t :: "dim3 \<times> dim3"
    assume g: "case t of ((bx, by), (tx, ty)) \<Rightarrow>
                 u32 (tx + bx * bdx) < nx \<and> u32 (ty + by * bdy) < ny"
    obtain bx "by" tx ty where t: "t = ((bx, by), (tx, ty))"
      by (metis surj_pair)
    have "k \<noteq> cell nx (u32 (tx + bx * bdx)) (u32 (ty + by * bdy))"
      using g unfolding t by (intro assms(4)) (simp_all add: u32_nonneg)
    then show "(case t of ((bx, by), (tx, ty)) \<Rightarrow>
                  cell nx (u32 (tx + bx * bdx)) (u32 (ty + by * bdy))) \<noteq> k"
      unfolding t by simp
  qed
qed

lemma launch_diffusion_interior:
  assumes "0 \<le> nx" and "0 \<le> ny" and "(nx + 2) * (ny + 2) \<le> 2 ^ 32"
    and "0 < bdx" and "0 < bdy" and "nx \<le> bdx * gdx" and "ny \<le> bdy * gdy"
    and "0 \<le> i" and "i < nx" and "0 \<le> j" and "j < ny"
  shows "launch_diffusion (gdx, gdy) (bdx, bdy) x0 x1 nx ny dt (cell nx i j) =
           stencil x0 dt (nx + 2) (cell nx i j)"
proof -
  define t0 :: "dim3 \<times> dim3" where "t0 = ((i div bdx, j div bdy), (i mod bdx, j mod bdy))"
  have "i div bdx < gdx" "j div bdy < gdy"
    using assms by (auto intro!: idiv_less)
  moreover have "0 \<le> i div bdx" "0 \<le> j div bdy"
    using assms by (simp_all add: pos_imp_zdiv_nonneg_iff)
  moreover have "i mod bdx < bdx" "j mod bdy < bdy" "0 \<le> i mod bdx" "0 \<le> j mod bdy"
    using assms by simp_all
  ultimately have in_ts: "t0 \<in> set (List.product (indices (gdx, gdy)) (indices (bdx, bdy)))"
    by (simp add: t0_def set_indices)
  have ij: "u32 (i mod bdx + i div bdx * bdx) = i" "u32 (j mod bdy + j div bdy * bdy) = j"
    using assms size_bounds[OF assms(1-3)] by (simp_all add: u32_id)
  show ?thesis
    unfolding launch_diffusion_def launch_product
    by (rule fold_writes_hit[OF diffusion_body[OF assms(1-3)] in_ts])
       (use assms ij in \<open>auto simp: t0_def\<close>)
qed


section \<open>The tiled kernel: staging buffer and launch\<close>

lemma cell_lin: "cell nx i j = lin (nx + 2) (i + 1) (j + 1)"
  by (simp add: cell_def lin_def)

lemma lin_inj:
  assumes "0 \<le> c" and "c < w" and "0 \<le> c'" and "c' < w" and "lin w c r = lin w c' r'"
  shows "c = c' \<and> r = r'"
  using assms cell_inj[of c w c' r r'] by (simp add: lin_def)

lemma global_index:
  fixes tx bx bdx gdx :: int
  assumes "0 \<le> tx" and "tx < bdx" and "0 \<le> bx" and "bx < gdx" and "bdx * gdx \<le> 2 ^ 32"
  shows "u32 (tx + bx * bdx) = tx + bx * bdx"
proof -
  define p where "p = bx * bdx"
  have "bx * bdx \<le> (gdx - 1) * bdx" using assms by (intro mult_right_mono) auto
  then have "p + bdx \<le> bdx * gdx" by (simp add: p_def algebra_simps)
  moreover have "0 \<le> p" using assms by (simp add: p_def)
  ultimately have "0 \<le> tx + p" "tx + p < 2 ^ 32" using assms by linarith+
  then show ?thesis unfolding p_def by (rule u32_id)
qed

lemma load_thread:
  assumes "0 \<le> nx" and "0 \<le> ny" and "(nx + 2) * (ny + 2) \<le> 2 ^ 32"
    and "0 < bdx" and "0 < bdy" and "(bdx + 2) * (bdy + 2) \<le> 2 ^ 32"
    and "bdx * gdx \<le> 2 ^ 32" and "bdy * gdy \<le> 2 ^ 32"
    and "0 \<le> bx" and "bx < gdx" and "0 \<le> by" and "by < gdy"
    and "0 \<le> tx" and "tx < bdx" and "0 \<le> ty" and "ty < bdy"
  shows "diffusion_shared_load x0 nx ny (bdx, bdy) (bx, by) (tx, ty) buffer =
           fold (\<lambda>(k, c) m. m(k \<mapsto> c)) (loads x0 nx ny (bdx, bdy) (bx, by) (tx, ty)) buffer"
proof -
  let ?i = "tx + bx * bdx" and ?j = "ty + by * bdy"
  have i: "u32 (tx + bx * bdx) = ?i" and j: "u32 (ty + by * bdy) = ?j"
    using assms by (simp_all add: global_index)
  have n: "u32 nx = nx" "u32 ny = ny" using size_bounds[OF assms(1-3)] assms by (simp_all add: u32_id)
  have bd: "bdx < 2 ^ 32" "bdy < 2 ^ 32"
    using size_bounds[OF _ _ assms(6)] assms by simp_all
  show ?thesis
  proof (cases "?i < nx \<and> ?j < ny")
    case False
    then show ?thesis using n by (auto simp: i j loads_def Let_def)
  next
    case True
    have ij: "0 \<le> ?i" "0 \<le> ?j" using assms by simp_all
    define P where "P = cell nx ?i ?j"
    define S where "S = cell bdx tx ty"
    note b = cell_bounds[OF ij(1) _ ij(2), of nx ny]
    have b1: "nx + 3 \<le> P" and b2: "P + (nx + 2) < 2 ^ 32"
      using b True assms(3) by (auto simp: P_def)
    note s = cell_bounds[OF assms(13,14,15,16)]
    have s1: "bdx + 3 \<le> S" and s2: "S + (bdx + 2) < 2 ^ 32"
      using s assms(6) by (auto simp: S_def)
    have sw: "u32 (bdx + 2) = bdx + 2" "u32 (bdx - 1) = bdx - 1" "u32 (bdy - 1) = bdy - 1"
      using assms s1 s2 bd by (simp_all add: u32_id)
    have p: "u32 (?i + 1 + (?j + 1) * (nx + 2)) = P"
      using b1 b2 assms unfolding P_def by (simp add: cell_def[symmetric] u32_id)
    have sp: "u32 (tx + 1 + (ty + 1) * (bdx + 2)) = S"
      using s1 s2 assms unfolding S_def by (simp add: cell_def[symmetric] u32_id)
    have q: "u32 (P - (nx + 2)) = P - (nx + 2)" "u32 (P + (nx + 2)) = P + (nx + 2)"
      "u32 (P - 1) = P - 1" "u32 (P + 1) = P + 1"
      using b1 b2 assms by (simp_all add: u32_id)
    have r: "u32 (S - (bdx + 2)) = S - (bdx + 2)" "u32 (S + (bdx + 2)) = S + (bdx + 2)"
      "u32 (S - 1) = S - 1" "u32 (S + 1) = S + 1"
      using s1 s2 assms by (simp_all add: u32_id)
    have lhs: "diffusion_shared_load x0 nx ny (bdx, bdy) (bx, by) (tx, ty) buffer =
      (let b1 = buffer(S \<mapsto> x0 P);
           b2 = (if tx = 0 then b1(S - 1 \<mapsto> x0 (P - 1)) else b1);
           b3 = (if tx = bdx - 1 then b2(S + 1 \<mapsto> x0 (P + 1)) else b2);
           b4 = (if ty = 0 then b3(S - (bdx + 2) \<mapsto> x0 (P - (nx + 2))) else b3);
           b5 = (if ty = bdy - 1 then b4(S + (bdx + 2) \<mapsto> x0 (P + (nx + 2))) else b4)
       in b5)"
      unfolding diffusion_shared_load.simps Let_def i j n sw p sp q r
      by (simp only: True if_True simp_thms)
    let ?f = "\<lambda>(a, r). (lin (bdx + 2) a r, x0 (lin (nx + 2) (bx * bdx + a) (by * bdy + r)))"
    let ?u = "\<lambda>(k, c) m. m(k \<mapsto> c)"
    have s1: "fold ?u (map ?f [(tx + 1, ty + 1)]) m = m(S \<mapsto> x0 P)" for m
      by (simp add: lin_def S_def P_def cell_def algebra_simps)
    have s2: "fold ?u (map ?f (if tx = 0 then [(0, ty + 1)] else [])) m =
                (if tx = 0 then m(S - 1 \<mapsto> x0 (P - 1)) else m)" for m
      by (simp add: lin_def S_def P_def cell_def algebra_simps)
    have s3: "fold ?u (map ?f (if tx = bdx - 1 then [(bdx + 1, ty + 1)] else [])) m =
                (if tx = bdx - 1 then m(S + 1 \<mapsto> x0 (P + 1)) else m)" for m
    proof (cases "tx = bdx - 1")
      case True
      then have "bdx = tx + 1" by simp
      then show ?thesis by (simp add: lin_def S_def P_def cell_def algebra_simps)
    next
      case False
      then show ?thesis by simp
    qed
    have s4: "fold ?u (map ?f (if ty = 0 then [(tx + 1, 0)] else [])) m =
                (if ty = 0 then m(S - (bdx + 2) \<mapsto> x0 (P - (nx + 2))) else m)" for m
      by (simp add: lin_def S_def P_def cell_def algebra_simps)
    have s5: "fold ?u (map ?f (if ty = bdy - 1 then [(tx + 1, bdy + 1)] else [])) m =
                (if ty = bdy - 1 then m(S + (bdx + 2) \<mapsto> x0 (P + (nx + 2))) else m)" for m
    proof (cases "ty = bdy - 1")
      case True
      then have "bdy = ty + 1" by simp
      then show ?thesis by (simp add: lin_def S_def P_def cell_def algebra_simps)
    next
      case False
      then show ?thesis by simp
    qed
    have "loads x0 nx ny (bdx, bdy) (bx, by) (tx, ty) = map ?f (coords (bdx, bdy) (tx, ty))"
      using True by (simp add: loads_def)
    then have "fold ?u (loads x0 nx ny (bdx, bdy) (bx, by) (tx, ty)) buffer =
      fold ?u (map ?f (if ty = bdy - 1 then [(tx + 1, bdy + 1)] else []))
       (fold ?u (map ?f (if ty = 0 then [(tx + 1, 0)] else []))
         (fold ?u (map ?f (if tx = bdx - 1 then [(bdx + 1, ty + 1)] else []))
           (fold ?u (map ?f (if tx = 0 then [(0, ty + 1)] else []))
             (fold ?u (map ?f [(tx + 1, ty + 1)]) buffer))))"
      by (simp only: coords_def prod.case map_append fold_append comp_apply)
    then show ?thesis
      unfolding lhs Let_def s1 s2 s3 s4 s5 by simp
  qed
qed

lemma fold_concat_map:
  "fold f (concat (map h xs)) s = fold (\<lambda>x. fold f (h x)) xs s"
  by (induction xs arbitrary: s) simp_all

lemma diffusion_shared_stage:
  "diffusion_shared x0 nx ny dt garbage blockDim blockIdx x1 =
     fold (diffusion_shared_compute (garbage blockIdx) (stage x0 nx ny blockDim blockIdx)
             nx ny dt blockDim blockIdx) (indices blockDim) x1"
  by (simp add: diffusion_shared_def)

lemma coords_range:
  assumes "(a, r) \<in> set (coords (bdx, bdy) (tx, ty))" and "0 \<le> tx" and "tx < bdx"
  shows "0 \<le> a \<and> a < bdx + 2"
  using assms by (auto simp: coords_def split: if_splits)

lemma stage_loads:
  assumes "0 \<le> nx" and "0 \<le> ny" and "(nx + 2) * (ny + 2) \<le> 2 ^ 32"
    and "0 < bdx" and "0 < bdy" and "(bdx + 2) * (bdy + 2) \<le> 2 ^ 32"
    and "bdx * gdx \<le> 2 ^ 32" and "bdy * gdy \<le> 2 ^ 32"
    and "0 \<le> bx" and "bx < gdx" and "0 \<le> by" and "by < gdy"
  shows "stage x0 nx ny (bdx, bdy) (bx, by) =
     fold (\<lambda>(k, c) m. m(k \<mapsto> c))
       (concat (map (loads x0 nx ny (bdx, bdy) (bx, by)) (indices (bdx, bdy)))) Map.empty"
proof -
  have "fold (diffusion_shared_load x0 nx ny (bdx, bdy) (bx, by)) (indices (bdx, bdy)) m =
        fold (\<lambda>t. fold (\<lambda>(k, c) m. m(k \<mapsto> c)) (loads x0 nx ny (bdx, bdy) (bx, by) t))
          (indices (bdx, bdy)) m" for m
  proof (rule fold_cong[OF refl refl])
    fix t assume a: "t \<in> set (indices (bdx, bdy))"
    obtain tx ty where t: "t = (tx, ty)" by (cases t)
    have r: "0 \<le> tx" "tx < bdx" "0 \<le> ty" "ty < bdy"
      using a by (auto simp: t set_indices)
    show "diffusion_shared_load x0 nx ny (bdx, bdy) (bx, by) t =
          fold (\<lambda>(k, c) m. m(k \<mapsto> c)) (loads x0 nx ny (bdx, bdy) (bx, by) t)"
      unfolding t by (rule ext) (rule load_thread[OF assms r])
  qed
  then show ?thesis
    by (simp add: stage_def fold_concat_map)
qed

lemma stage_cell:
  assumes "0 \<le> nx" and "0 \<le> ny" and "(nx + 2) * (ny + 2) \<le> 2 ^ 32"
    and "0 < bdx" and "0 < bdy" and "(bdx + 2) * (bdy + 2) \<le> 2 ^ 32"
    and "bdx * gdx \<le> 2 ^ 32" and "bdy * gdy \<le> 2 ^ 32"
    and "0 \<le> bx" and "bx < gdx" and "0 \<le> by" and "by < gdy"
    and "0 \<le> a" and "a < bdx + 2"
  shows "stage x0 nx ny (bdx, bdy) (bx, by) (lin (bdx + 2) a r) =
     (if \<exists>t \<in> set (indices (bdx, bdy)).
           (fst t + bx * bdx < nx \<and> snd t + by * bdy < ny) \<and> (a, r) \<in> set (coords (bdx, bdy) t)
      then Some (x0 (lin (nx + 2) (bx * bdx + a) (by * bdy + r))) else None)"
proof -
  let ?es = "concat (map (loads x0 nx ny (bdx, bdy) (bx, by)) (indices (bdx, bdy)))"
  let ?u = "\<lambda>(k, c) m. m(k \<mapsto> c)"
  let ?k = "lin (bdx + 2) a r"
  let ?v = "Some (x0 (lin (nx + 2) (bx * bdx + a) (by * bdy + r)))"
  have body: "?u e m = (if True then m(fst e := (Some \<circ> snd) e) else m)" for e m
    by (cases e) simp
  have entry: "\<exists>t \<in> set (indices (bdx, bdy)).
           (fst t + bx * bdx < nx \<and> snd t + by * bdy < ny) \<and> (a, r) \<in> set (coords (bdx, bdy) t)"
    and val: "(Some \<circ> snd) e = ?v"
    if "e \<in> set ?es" "fst e = ?k" for e
  proof -
    from that(1) obtain t where t: "t \<in> set (indices (bdx, bdy))"
      and e: "e \<in> set (loads x0 nx ny (bdx, bdy) (bx, by) t)" by auto
    obtain tx ty where tt: "t = (tx, ty)" by (cases t)
    have r: "0 \<le> tx" "tx < bdx" using t by (auto simp: tt set_indices)
    from e have g: "tx + bx * bdx < nx \<and> ty + by * bdy < ny"
      by (auto simp: loads_def tt split: if_splits)
    from e g obtain a' r' where c: "(a', r') \<in> set (coords (bdx, bdy) (tx, ty))"
      and e': "e = (lin (bdx + 2) a' r', x0 (lin (nx + 2) (bx * bdx + a') (by * bdy + r')))"
      by (auto simp: loads_def tt)
    have "0 \<le> a' \<and> a' < bdx + 2" using coords_range[OF c r] .
    then have "a' = a \<and> r' = r"
      using that(2) assms(13,14) unfolding e' by (intro lin_inj[of a' "bdx + 2" a r' r]) auto
    then show "\<exists>t \<in> set (indices (bdx, bdy)).
           (fst t + bx * bdx < nx \<and> snd t + by * bdy < ny) \<and> (a, r) \<in> set (coords (bdx, bdy) t)"
      and "(Some \<circ> snd) e = ?v"
      using t g c by (auto simp: tt e' intro!: bexI[of _ "(tx, ty)"])
  qed
  show ?thesis
  proof (cases "\<exists>t \<in> set (indices (bdx, bdy)).
           (fst t + bx * bdx < nx \<and> snd t + by * bdy < ny) \<and> (a, r) \<in> set (coords (bdx, bdy) t)")
    case True
    then obtain t where t: "t \<in> set (indices (bdx, bdy))"
      and g: "fst t + bx * bdx < nx \<and> snd t + by * bdy < ny"
      and c: "(a, r) \<in> set (coords (bdx, bdy) t)" by auto
    define e0 where "e0 = (?k, x0 (lin (nx + 2) (bx * bdx + a) (by * bdy + r)))"
    have "e0 \<in> set (loads x0 nx ny (bdx, bdy) (bx, by) t)"
      using g c by (cases t) (auto simp: loads_def e0_def)
    then have in_es: "e0 \<in> set ?es" using t by auto
    have "fold ?u ?es Map.empty ?k = ?v"
    proof (rule fold_writes_hit[where g = "\<lambda>_. True" and kf = fst and vf = "Some \<circ> snd",
            OF body in_es])
      show "True" ..
      show "fst e0 = ?k" by (simp add: e0_def)
      show "(Some \<circ> snd) e = ?v" if "e \<in> set ?es" "True" "fst e = ?k" for e
        using val[OF that(1,3)] .
    qed
    then show ?thesis using True unfolding stage_loads[OF assms(1-12)] by simp
  next
    case False
    have "fold ?u ?es Map.empty ?k = Map.empty ?k"
      by (rule fold_writes_other[where g = "\<lambda>_. True" and kf = fst and vf = "Some \<circ> snd",
            OF body]) (use False entry in blast)
    then show ?thesis using False unfolding stage_loads[OF assms(1-12)] by simp
  qed
qed

lemma coords_mem:
  "(a, r) \<in> set (coords (bdx, bdy) (tx, ty)) \<longleftrightarrow>
     (a = tx + 1 \<and> r = ty + 1) \<or> (tx = 0 \<and> a = 0 \<and> r = ty + 1)
     \<or> (tx = bdx - 1 \<and> a = bdx + 1 \<and> r = ty + 1)
     \<or> (ty = 0 \<and> a = tx + 1 \<and> r = 0) \<or> (ty = bdy - 1 \<and> a = tx + 1 \<and> r = bdy + 1)"
  by (auto simp: coords_def)

lemma stage_thread:
  fixes x0 :: "real array"
  assumes "0 \<le> nx" and "0 \<le> ny" and "(nx + 2) * (ny + 2) \<le> 2 ^ 32"
    and "0 < bdx" and "0 < bdy" and "(bdx + 2) * (bdy + 2) \<le> 2 ^ 32"
    and "bdx * gdx \<le> 2 ^ 32" and "bdy * gdy \<le> 2 ^ 32"
    and "0 \<le> bx" and "bx < gdx" and "0 \<le> by" and "by < gdy"
    and "0 \<le> tx" and "tx < bdx" and "0 \<le> ty" and "ty < bdy"
    and "tx + bx * bdx < nx" and "ty + by * bdy < ny"
  defines "P \<equiv> cell nx (tx + bx * bdx) (ty + by * bdy)"
    and "S \<equiv> cell bdx tx ty"
    and "B \<equiv> stage x0 nx ny (bdx, bdy) (bx, by)"
  shows "B S = Some (x0 P)"
    and "B (S - 1) = Some (x0 (P - 1))"
    and "B (S - (bdx + 2)) = Some (x0 (P - (nx + 2)))"
    and "B (S + 1) = (if tx = bdx - 1 \<or> tx + 1 + bx * bdx < nx then Some (x0 (P + 1)) else None)"
    and "B (S + (bdx + 2)) =
           (if ty = bdy - 1 \<or> ty + 1 + by * bdy < ny then Some (x0 (P + (nx + 2))) else None)"
proof -
  note sc = stage_cell[OF assms(1-12), of _ x0]
  let ?E = "\<lambda>a r. \<exists>t \<in> set (indices (bdx, bdy)).
           (fst t + bx * bdx < nx \<and> snd t + by * bdy < ny) \<and> (a, r) \<in> set (coords (bdx, bdy) t)"
  have self: "(tx, ty) \<in> set (indices (bdx, bdy))"
    using assms by (simp add: set_indices)
  have k: "S = lin (bdx + 2) (tx + 1) (ty + 1)" "S - 1 = lin (bdx + 2) tx (ty + 1)"
    "S - (bdx + 2) = lin (bdx + 2) (tx + 1) ty" "S + 1 = lin (bdx + 2) (tx + 2) (ty + 1)"
    "S + (bdx + 2) = lin (bdx + 2) (tx + 1) (ty + 2)"
    by (simp_all add: S_def cell_def lin_def algebra_simps)
  have g: "x0 P = x0 (lin (nx + 2) (bx * bdx + (tx + 1)) (by * bdy + (ty + 1)))"
    "x0 (P - 1) = x0 (lin (nx + 2) (bx * bdx + tx) (by * bdy + (ty + 1)))"
    "x0 (P - (nx + 2)) = x0 (lin (nx + 2) (bx * bdx + (tx + 1)) (by * bdy + ty))"
    "x0 (P + 1) = x0 (lin (nx + 2) (bx * bdx + (tx + 2)) (by * bdy + (ty + 1)))"
    "x0 (P + (nx + 2)) = x0 (lin (nx + 2) (bx * bdx + (tx + 1)) (by * bdy + (ty + 2)))"
    by (simp_all add: P_def cell_def lin_def algebra_simps)
  have e1: "?E (tx + 1) (ty + 1)"
    using self assms(17,18) by (intro bexI[of _ "(tx, ty)"]) (simp_all add: coords_mem)
  have e2: "?E tx (ty + 1)"
  proof (cases "tx = 0")
    case True
    then show ?thesis
      using self assms(17,18) by (intro bexI[of _ "(tx, ty)"]) (simp_all add: coords_mem)
  next
    case False
    then have "(tx - 1, ty) \<in> set (indices (bdx, bdy))"
      using assms by (simp add: set_indices)
    then show ?thesis
      using assms(17,18) by (intro bexI[of _ "(tx - 1, ty)"]) (simp_all add: coords_mem)
  qed
  have e3: "?E (tx + 1) ty"
  proof (cases "ty = 0")
    case True
    then show ?thesis
      using self assms(17,18) by (intro bexI[of _ "(tx, ty)"]) (simp_all add: coords_mem)
  next
    case False
    then have "(tx, ty - 1) \<in> set (indices (bdx, bdy))"
      using assms by (simp add: set_indices)
    then show ?thesis
      using assms(17,18) by (intro bexI[of _ "(tx, ty - 1)"]) (simp_all add: coords_mem)
  qed
  have e4: "?E (tx + 2) (ty + 1) \<longleftrightarrow> tx = bdx - 1 \<or> tx + 1 + bx * bdx < nx"
  proof
    assume "?E (tx + 2) (ty + 1)"
    then obtain tx' ty' where "0 \<le> tx'" "tx' < bdx" "0 \<le> ty'" "ty' < bdy"
      "tx' + bx * bdx < nx" "(tx + 2, ty + 1) \<in> set (coords (bdx, bdy) (tx', ty'))"
      by (auto simp: set_indices)
    then show "tx = bdx - 1 \<or> tx + 1 + bx * bdx < nx"
      using assms(13-16) by (auto simp: coords_mem)
  next
    assume a: "tx = bdx - 1 \<or> tx + 1 + bx * bdx < nx"
    show "?E (tx + 2) (ty + 1)"
    proof (cases "tx = bdx - 1")
      case True
      then show ?thesis
        using self assms(17,18) by (intro bexI[of _ "(tx, ty)"]) (simp_all add: coords_mem)
    next
      case False
      then have "(tx + 1, ty) \<in> set (indices (bdx, bdy))"
        using assms by (simp add: set_indices)
      then show ?thesis
        using a False assms(17,18)
        by (intro bexI[of _ "(tx + 1, ty)"]) (simp_all add: coords_mem algebra_simps)
    qed
  qed
  have e5: "?E (tx + 1) (ty + 2) \<longleftrightarrow> ty = bdy - 1 \<or> ty + 1 + by * bdy < ny"
  proof
    assume "?E (tx + 1) (ty + 2)"
    then obtain tx' ty' where "0 \<le> tx'" "tx' < bdx" "0 \<le> ty'" "ty' < bdy"
      "ty' + by * bdy < ny" "(tx + 1, ty + 2) \<in> set (coords (bdx, bdy) (tx', ty'))"
      by (auto simp: set_indices)
    then show "ty = bdy - 1 \<or> ty + 1 + by * bdy < ny"
      using assms(13-16) by (auto simp: coords_mem)
  next
    assume a: "ty = bdy - 1 \<or> ty + 1 + by * bdy < ny"
    show "?E (tx + 1) (ty + 2)"
    proof (cases "ty = bdy - 1")
      case True
      then show ?thesis
        using self assms(17,18) by (intro bexI[of _ "(tx, ty)"]) (simp_all add: coords_mem)
    next
      case False
      then have "(tx, ty + 1) \<in> set (indices (bdx, bdy))"
        using assms by (simp add: set_indices)
      then show ?thesis
        using a False assms(17,18)
        by (intro bexI[of _ "(tx, ty + 1)"]) (simp_all add: coords_mem algebra_simps)
    qed
  qed
  have r: "0 \<le> tx + 1" "tx + 1 < bdx + 2" "0 \<le> tx" "tx < bdx + 2" "0 \<le> tx + 2" "tx + 2 < bdx + 2"
    using assms(13,14) by simp_all
  show "B S = Some (x0 P)"
    unfolding B_def k(1) g(1) using sc[OF r(1,2), of "ty + 1"] e1 by simp
  show "B (S - 1) = Some (x0 (P - 1))"
    unfolding B_def k(2) g(2) using sc[OF r(3,4), of "ty + 1"] e2 by simp
  show "B (S - (bdx + 2)) = Some (x0 (P - (nx + 2)))"
    unfolding B_def k(3) g(3) using sc[OF r(1,2), of ty] e3 by simp
  show "B (S + 1) = (if tx = bdx - 1 \<or> tx + 1 + bx * bdx < nx then Some (x0 (P + 1)) else None)"
    unfolding B_def k(4) g(4) using sc[OF r(5,6), of "ty + 1"] e4 by simp
  show "B (S + (bdx + 2)) =
           (if ty = bdy - 1 \<or> ty + 1 + by * bdy < ny then Some (x0 (P + (nx + 2))) else None)"
    unfolding B_def k(5) g(5) using sc[OF r(1,2), of "ty + 2"] e5 by simp
qed

lemma compute_thread:
  assumes "0 \<le> nx" and "0 \<le> ny" and "(nx + 2) * (ny + 2) \<le> 2 ^ 32"
    and "0 < bdx" and "0 < bdy" and "(bdx + 2) * (bdy + 2) \<le> 2 ^ 32"
    and "bdx * gdx \<le> 2 ^ 32" and "bdy * gdy \<le> 2 ^ 32"
    and "0 \<le> bx" and "bx < gdx" and "0 \<le> by" and "by < gdy"
    and "0 \<le> tx" and "tx < bdx" and "0 \<le> ty" and "ty < bdy"
  shows "diffusion_shared_compute g buffer nx ny dt (bdx, bdy) (bx, by) (tx, ty) x1 =
     (if tx + bx * bdx < nx \<and> ty + by * bdy < ny
      then x1(cell nx (tx + bx * bdx) (ty + by * bdy) :=
                stencil (shared_read g buffer) dt (bdx + 2) (cell bdx tx ty))
      else x1)"
proof -
  let ?i = "tx + bx * bdx" and ?j = "ty + by * bdy"
  have i: "u32 (tx + bx * bdx) = ?i" and j: "u32 (ty + by * bdy) = ?j"
    using assms by (simp_all add: global_index)
  have n: "u32 nx = nx" "u32 ny = ny" using size_bounds[OF assms(1-3)] assms by (simp_all add: u32_id)
  have bd: "bdx < 2 ^ 32" "bdy < 2 ^ 32"
    using size_bounds[OF _ _ assms(6)] assms by simp_all
  show ?thesis
  proof (cases "?i < nx \<and> ?j < ny")
    case False
    then show ?thesis using n by (auto simp: i j Let_def)
  next
    case True
    have ij: "0 \<le> ?i" "0 \<le> ?j" using assms by simp_all
    define P where "P = cell nx ?i ?j"
    define S where "S = cell bdx tx ty"
    note b = cell_bounds[OF ij(1) _ ij(2), of nx ny]
    have b1: "nx + 3 \<le> P" and b2: "P + (nx + 2) < 2 ^ 32"
      using b True assms(3) by (auto simp: P_def)
    note s = cell_bounds[OF assms(13,14,15,16)]
    have s1: "bdx + 3 \<le> S" and s2: "S + (bdx + 2) < 2 ^ 32"
      using s assms(6) by (auto simp: S_def)
    have sw: "u32 (bdx + 2) = bdx + 2"
      using assms s1 s2 bd by (simp_all add: u32_id)
    have p: "u32 (?i + 1 + (?j + 1) * (nx + 2)) = P"
      using b1 b2 assms unfolding P_def by (simp add: cell_def[symmetric] u32_id)
    have sp: "u32 (tx + 1 + (ty + 1) * (bdx + 2)) = S"
      using s1 s2 assms unfolding S_def by (simp add: cell_def[symmetric] u32_id)
    have r: "u32 (S - (bdx + 2)) = S - (bdx + 2)" "u32 (S + (bdx + 2)) = S + (bdx + 2)"
      "u32 (S - 1) = S - 1" "u32 (S + 1) = S + 1"
      using s1 s2 assms by (simp_all add: u32_id)
    show ?thesis
      unfolding diffusion_shared_compute.simps Let_def i j n sw p sp r stencil_def
      unfolding P_def[symmetric] S_def[symmetric]
      by (simp only: True if_True simp_thms)
  qed
qed

lemma launch_shared_product:
  "launch_diffusion_shared g b shared_size garbage x0 x1 nx ny dt =
     fold (\<lambda>(bi, ti). diffusion_shared_compute (garbage bi) (stage x0 nx ny b bi) nx ny dt b bi ti)
       (List.product (indices g) (indices b)) x1"
  by (simp add: launch_diffusion_shared_def diffusion_shared_stage[abs_def] fold_product)

lemma shared_body:
  assumes "0 \<le> nx" and "0 \<le> ny" and "(nx + 2) * (ny + 2) \<le> 2 ^ 32"
    and "0 < bdx" and "0 < bdy" and "(bdx + 2) * (bdy + 2) \<le> 2 ^ 32"
    and "bdx * gdx \<le> 2 ^ 32" and "bdy * gdy \<le> 2 ^ 32"
    and "t \<in> set (List.product (indices (gdx, gdy)) (indices (bdx, bdy)))"
  shows "(case t of (bi, ti) \<Rightarrow>
            diffusion_shared_compute (garbage bi) (stage x0 nx ny (bdx, bdy) bi) nx ny dt (bdx, bdy) bi ti) m =
     (if (case t of ((bx, by), (tx, ty)) \<Rightarrow> tx + bx * bdx < nx \<and> ty + by * bdy < ny)
      then m((case t of ((bx, by), (tx, ty)) \<Rightarrow> cell nx (tx + bx * bdx) (ty + by * bdy)) :=
               (case t of ((bx, by), (tx, ty)) \<Rightarrow>
                  stencil (shared_read (garbage (bx, by)) (stage x0 nx ny (bdx, bdy) (bx, by)))
                    dt (bdx + 2) (cell bdx tx ty)))
      else m)"
proof -
  obtain bx "by" tx ty where t: "t = ((bx, by), (tx, ty))"
    by (metis surj_pair)
  have r: "0 \<le> bx" "bx < gdx" "0 \<le> by" "by < gdy" "0 \<le> tx" "tx < bdx" "0 \<le> ty" "ty < bdy"
    using assms(9) by (auto simp: t set_indices)
  show ?thesis unfolding t using compute_thread[OF assms(1-8) r] by simp
qed

lemma launch_shared_frame:
  assumes "0 \<le> nx" and "0 \<le> ny" and "(nx + 2) * (ny + 2) \<le> 2 ^ 32"
    and "0 < bdx" and "0 < bdy" and "(bdx + 2) * (bdy + 2) \<le> 2 ^ 32"
    and "bdx * gdx \<le> 2 ^ 32" and "bdy * gdy \<le> 2 ^ 32"
    and "\<And>i j. 0 \<le> i \<Longrightarrow> i < nx \<Longrightarrow> 0 \<le> j \<Longrightarrow> j < ny \<Longrightarrow> k \<noteq> cell nx i j"
  shows "launch_diffusion_shared (gdx, gdy) (bdx, bdy) shared_size garbage x0 x1 nx ny dt k = x1 k"
  unfolding launch_shared_product
proof (rule fold_writes_other[OF shared_body[OF assms(1-8)]])
  fix t :: "dim3 \<times> dim3"
  assume m: "t \<in> set (List.product (indices (gdx, gdy)) (indices (bdx, bdy)))"
    and g: "case t of ((bx, by), (tx, ty)) \<Rightarrow> tx + bx * bdx < nx \<and> ty + by * bdy < ny"
  obtain bx "by" tx ty where t: "t = ((bx, by), (tx, ty))"
    by (metis surj_pair)
  have "0 \<le> tx + bx * bdx" "0 \<le> ty + by * bdy"
    using m assms(4,5) by (auto simp: t set_indices)
  then have "k \<noteq> cell nx (tx + bx * bdx) (ty + by * bdy)"
    using g unfolding t by (intro assms(9)) simp_all
  then show "(case t of ((bx, by), (tx, ty)) \<Rightarrow> cell nx (tx + bx * bdx) (ty + by * bdy)) \<noteq> k"
    unfolding t by simp
qed

lemma launch_shared_interior:
  assumes "0 \<le> nx" and "0 \<le> ny" and "(nx + 2) * (ny + 2) \<le> 2 ^ 32"
    and "0 < bdx" and "0 < bdy" and "(bdx + 2) * (bdy + 2) \<le> 2 ^ 32"
    and "bdx * gdx \<le> 2 ^ 32" and "bdy * gdy \<le> 2 ^ 32"
    and "nx \<le> bdx * gdx" and "ny \<le> bdy * gdy"
    and "0 \<le> i" and "i < nx" and "0 \<le> j" and "j < ny"
  shows "launch_diffusion_shared (gdx, gdy) (bdx, bdy) shared_size garbage x0 x1 nx ny dt (cell nx i j) =
           tiled_value x0 garbage nx ny dt (bdx, bdy) i j"
proof -
  define bx "by" tx ty where "bx = i div bdx" and "by = j div bdy" and "tx = i mod bdx" and "ty = j mod bdy"
  define t0 :: "dim3 \<times> dim3" where "t0 = ((bx, by), (tx, ty))"
  have r: "0 \<le> bx" "bx < gdx" "0 \<le> by" "by < gdy" "0 \<le> tx" "tx < bdx" "0 \<le> ty" "ty < bdy"
    using assms by (auto simp: bx_def by_def tx_def ty_def pos_imp_zdiv_nonneg_iff intro!: idiv_less)
  then have in_ts: "t0 \<in> set (List.product (indices (gdx, gdy)) (indices (bdx, bdy)))"
    by (simp add: t0_def set_indices)
  have ij: "tx + bx * bdx = i" "ty + by * bdy = j"
    by (simp_all add: bx_def by_def tx_def ty_def)
  have g0: "tx + bx * bdx < nx" "ty + by * bdy < ny" using assms ij by simp_all
  note st = stage_thread[OF assms(1-8) r g0, of x0, unfolded ij]
  have c: "tx + 1 + bx * bdx < nx \<longleftrightarrow> i + 1 < nx" "ty + 1 + by * bdy < ny \<longleftrightarrow> j + 1 < ny"
    using ij by linarith+
  let ?b = "shared_read (garbage (bx, by)) (stage x0 nx ny (bdx, bdy) (bx, by))"
  let ?S = "cell bdx tx ty" and ?P = "cell nx i j"
  have rd: "?b ?S = x0 ?P" "?b (?S - 1) = x0 (?P - 1)" "?b (?S - (bdx + 2)) = x0 (?P - (nx + 2))"
    "?b (?S + 1) = (if tx = bdx - 1 \<or> i + 1 < nx then x0 (?P + 1) else garbage (bx, by) (?S + 1))"
    "?b (?S + (bdx + 2)) = (if ty = bdy - 1 \<or> j + 1 < ny then x0 (?P + (nx + 2))
                             else garbage (bx, by) (?S + (bdx + 2)))"
    unfolding shared_read_def st c by simp_all
  have v0: "stencil ?b dt (bdx + 2) ?S = tiled_value x0 garbage nx ny dt (bdx, bdy) i j"
    unfolding stencil_def rd tiled_value_def prod.case Let_def
    unfolding bx_def[symmetric] by_def[symmetric] tx_def[symmetric] ty_def[symmetric]
    by (rule refl)
  show ?thesis
    unfolding launch_shared_product
  proof (rule fold_writes_hit[OF shared_body[OF assms(1-8)] in_ts])
    show "case t0 of ((bx, by), (tx, ty)) \<Rightarrow> tx + bx * bdx < nx \<and> ty + by * bdy < ny"
      using g0 by (simp add: t0_def)
    show "(case t0 of ((bx, by), (tx, ty)) \<Rightarrow> cell nx (tx + bx * bdx) (ty + by * bdy)) = cell nx i j"
      by (simp add: t0_def ij)
    fix t :: "dim3 \<times> dim3"
    assume m: "t \<in> set (List.product (indices (gdx, gdy)) (indices (bdx, bdy)))"
      and g: "case t of ((bx, by), (tx, ty)) \<Rightarrow> tx + bx * bdx < nx \<and> ty + by * bdy < ny"
      and k: "(case t of ((bx, by), (tx, ty)) \<Rightarrow> cell nx (tx + bx * bdx) (ty + by * bdy)) = cell nx i j"
    obtain bx' by' tx' ty' where t: "t = ((bx', by'), (tx', ty'))"
      by (metis surj_pair)
    have r': "0 \<le> bx'" "0 \<le> by'" "0 \<le> tx'" "tx' < bdx" "0 \<le> ty'" "ty' < bdy"
      using m by (auto simp: t set_indices)
    have g': "tx' + bx' * bdx < nx" "ty' + by' * bdy < ny" using g by (simp_all add: t)
    have nn: "0 \<le> tx' + bx' * bdx" using r' assms(4) by simp
    have "lin (nx + 2) (tx' + bx' * bdx + 1) (ty' + by' * bdy + 1) = lin (nx + 2) (i + 1) (j + 1)"
      using k by (simp add: t cell_lin)
    then have e: "tx' + bx' * bdx + 1 = i + 1 \<and> ty' + by' * bdy + 1 = j + 1"
      using nn g' assms(11,12) by (intro lin_inj[of _ "nx + 2"]) simp_all
    have "tx' = tx \<and> bx' = bx"
      using e r' r ij by (intro cell_inj[of tx' bdx tx bx' bx]) simp_all
    moreover have "ty' = ty \<and> by' = by"
      using e r' r ij by (intro cell_inj[of ty' bdy ty by' "by"]) simp_all
    ultimately show "(case t of ((bx, by), (tx, ty)) \<Rightarrow>
                  stencil (shared_read (garbage (bx, by)) (stage x0 nx ny (bdx, bdy) (bx, by)))
                    dt (bdx + 2) (cell bdx tx ty)) = tiled_value x0 garbage nx ny dt (bdx, bdy) i j"
      unfolding t using v0 by simp
  qed
qed

lemma compute_thread_cell:
  assumes "0 \<le> nx" and "0 \<le> ny" and "(nx + 2) * (ny + 2) \<le> 2 ^ 32"
  shows "diffusion_shared_compute g buffer nx ny dt (bdx, bdy) (bx, by) (tx, ty) x1 =
     (if u32 (tx + bx * bdx) < nx \<and> u32 (ty + by * bdy) < ny
      then x1(cell nx (u32 (tx + bx * bdx)) (u32 (ty + by * bdy)) :=
                stencil (\<lambda>k. shared_read g buffer (u32 k)) dt (u32 (bdx + 2))
                  (u32 ((tx + 1) + (ty + 1) * u32 (bdx + 2))))
      else x1)"
proof -
  define i j where "i = u32 (tx + bx * bdx)" and "j = u32 (ty + by * bdy)"
  have n: "u32 nx = nx" "u32 ny = ny" using size_bounds[OF assms] assms by (simp_all add: u32_id)
  show ?thesis
  proof (cases "i < nx \<and> j < ny")
    case False
    then show ?thesis using n by (auto simp: i_def j_def Let_def)
  next
    case True
    have ij: "0 \<le> i" "0 \<le> j" by (simp_all add: i_def j_def u32_nonneg)
    note b = cell_bounds[OF ij(1) _ ij(2), of nx ny]
    have b1: "nx + 3 \<le> cell nx i j" and b2: "cell nx i j + (nx + 2) < 2 ^ 32"
      using b True assms(3) by auto
    have p: "u32 (i + 1 + (j + 1) * (nx + 2)) = cell nx i j"
      using b1 b2 assms by (simp add: cell_def[symmetric] u32_id)
    have s: "u32 (u32 a) = u32 a" for a by (simp add: u32_def)
    show ?thesis
      unfolding diffusion_shared_compute.simps Let_def stencil_def n s
      unfolding i_def[symmetric] j_def[symmetric] p
      by (simp only: True if_True simp_thms)
  qed
qed

lemma shared_body_cell:
  assumes "0 \<le> nx" and "0 \<le> ny" and "(nx + 2) * (ny + 2) \<le> 2 ^ 32"
  shows "(case t of (bi, ti) \<Rightarrow>
            diffusion_shared_compute (garbage bi) (stage x0 nx ny (bdx, bdy) bi) nx ny dt (bdx, bdy) bi ti) m =
     (if (case t of ((bx, by), (tx, ty)) \<Rightarrow> u32 (tx + bx * bdx) < nx \<and> u32 (ty + by * bdy) < ny)
      then m((case t of ((bx, by), (tx, ty)) \<Rightarrow> cell nx (u32 (tx + bx * bdx)) (u32 (ty + by * bdy))) :=
               (case t of ((bx, by), (tx, ty)) \<Rightarrow>
                  stencil (\<lambda>k. shared_read (garbage (bx, by)) (stage x0 nx ny (bdx, bdy) (bx, by)) (u32 k))
                    dt (u32 (bdx + 2)) (u32 ((tx + 1) + (ty + 1) * u32 (bdx + 2)))))
      else m)"
proof -
  obtain bx "by" tx ty where t: "t = ((bx, by), (tx, ty))"
    by (metis surj_pair)
  show ?thesis unfolding t using compute_thread_cell[OF assms] by simp
qed

lemma launch_shared_frame_any:
  assumes "0 \<le> nx" and "0 \<le> ny" and "(nx + 2) * (ny + 2) \<le> 2 ^ 32"
    and "\<And>i j. 0 \<le> i \<Longrightarrow> i < nx \<Longrightarrow> 0 \<le> j \<Longrightarrow> j < ny \<Longrightarrow> k \<noteq> cell nx i j"
  shows "launch_diffusion_shared gridDim blockDim shared_size garbage x0 x1 nx ny dt k = x1 k"
proof -
  obtain bdx bdy where b: "blockDim = (bdx, bdy)" by (metis surj_pair)
  show ?thesis
    unfolding launch_shared_product b
  proof (rule fold_writes_other[OF shared_body_cell[OF assms(1-3)]])
    fix t :: "dim3 \<times> dim3"
    assume g: "case t of ((bx, by), (tx, ty)) \<Rightarrow>
                 u32 (tx + bx * bdx) < nx \<and> u32 (ty + by * bdy) < ny"
    obtain bx "by" tx ty where t: "t = ((bx, by), (tx, ty))"
      by (metis surj_pair)
    have "k \<noteq> cell nx (u32 (tx + bx * bdx)) (u32 (ty + by * bdy))"
      using g unfolding t by (intro assms(4)) (simp_all add: u32_nonneg)
    then show "(case t of ((bx, by), (tx, ty)) \<Rightarrow>
                  cell nx (u32 (tx + bx * bdx)) (u32 (ty + by * bdy))) \<noteq> k"
      unfolding t by simp
  qed
qed

section \<open>Full and partial blocks\<close>

lemma last_of_multiple:
  fixes d n :: int
  assumes "0 < d" and "d dvd n"
  shows "(n - 1) mod d = d - 1"
proof -
  obtain q where n: "n = d * q" using assms(2) by (auto elim: dvdE)
  have "n - 1 = (d - 1) + (q - 1) * d" by (simp add: n algebra_simps)
  moreover have "((d - 1) + (q - 1) * d) mod d = (d - 1) mod d" by (rule mod_mult_self1)
  moreover have "(d - 1) mod d = d - 1" using assms(1) by (intro mod_pos_pos_trivial) auto
  ultimately show ?thesis by (simp only:)
qed

lemma tiled_value_aligned:
  assumes "0 < bdx" and "0 < bdy" and "bdx dvd nx" and "bdy dvd ny"
    and "0 \<le> i" and "i < nx" and "0 \<le> j" and "j < ny"
  shows "tiled_value x0 garbage nx ny dt (bdx, bdy) i j = stencil x0 dt (nx + 2) (cell nx i j)"
proof -
  have "i mod bdx = bdx - 1 \<or> i + 1 < nx"
  proof (cases "i + 1 < nx")
    case False
    then have "i = nx - 1" using assms by simp
    then show ?thesis using last_of_multiple[OF assms(1,3)] by simp
  qed simp
  moreover have "j mod bdy = bdy - 1 \<or> j + 1 < ny"
  proof (cases "j + 1 < ny")
    case False
    then have "j = ny - 1" using assms by simp
    then show ?thesis using last_of_multiple[OF assms(2,4)] by simp
  qed simp
  ultimately show ?thesis
    by (simp add: tiled_value_def stencil_def Let_def)
qed

lemma last_row_value:
  assumes "0 \<le> bx" and "0 \<le> tx" and "tx < 16" and "tx + bx * 16 < 128"
    and "1 \<le> n" and "n \<le> 8"
  shows "tiled_value x0 garbage 128 n dt (16, 16) (tx + bx * 16) (n - 1) =
     (let P = cell 128 (tx + bx * 16) (n - 1)
      in x0 P + dt * (- 4 * x0 P + x0 (P - 130) + garbage (bx, 0) (cell 16 tx (n - 1) + 18)
                      + x0 (P - 1) + x0 (P + 1)))"
proof -
  have m: "(tx + bx * 16) mod 16 = tx" "(tx + bx * 16) div 16 = bx"
    using assms by simp_all
  have j: "(n - 1) mod 16 = n - 1" "(n - 1) div 16 = 0"
    using assms by simp_all
  have e: "tx = 16 - 1 \<or> tx + bx * 16 + 1 < 128"
    using assms by presburger
  have s: "\<not> (n - 1 = 16 - 1 \<or> n - 1 + 1 < n)" using assms by simp
  show ?thesis
    unfolding tiled_value_def prod.case Let_def m j
    using e s by simp
qed

lemma tiled_equals_naive_aligned:
  assumes "0 \<le> nx" and "0 \<le> ny" and "(nx + 2) * (ny + 2) \<le> 2 ^ 32"
    and "0 < bdx" and "0 < bdy" and "(bdx + 2) * (bdy + 2) \<le> 2 ^ 32"
    and "bdx * gdx \<le> 2 ^ 32" and "bdy * gdy \<le> 2 ^ 32"
    and "nx \<le> bdx * gdx" and "ny \<le> bdy * gdy"
    and "bdx dvd nx" and "bdy dvd ny"
  shows "launch_diffusion_shared (gdx, gdy) (bdx, bdy) shared_size garbage x0 x1 nx ny dt =
         launch_diffusion (gdx, gdy) (bdx, bdy) x0 x1 nx ny dt"
proof (rule ext)
  fix k
  show "launch_diffusion_shared (gdx, gdy) (bdx, bdy) shared_size garbage x0 x1 nx ny dt k =
         launch_diffusion (gdx, gdy) (bdx, bdy) x0 x1 nx ny dt k"
  proof (cases "\<exists>i j. 0 \<le> i \<and> i < nx \<and> 0 \<le> j \<and> j < ny \<and> k = cell nx i j")
    case True
    then obtain i j where ij: "0 \<le> i" "i < nx" "0 \<le> j" "j < ny" and k: "k = cell nx i j"
      by blast
    show ?thesis
      unfolding k launch_shared_interior[OF assms(1-10) ij]
        launch_diffusion_interior[OF assms(1-3) assms(4,5) assms(9,10) ij]
      by (rule tiled_value_aligned[OF assms(4,5) assms(11,12) ij])
  next
    case False
    then have f: "\<And>i j. 0 \<le> i \<Longrightarrow> i < nx \<Longrightarrow> 0 \<le> j \<Longrightarrow> j < ny \<Longrightarrow> k \<noteq> cell nx i j"
      by blast
    show ?thesis
      using launch_shared_frame[OF assms(1-8) f, of shared_size garbage x0 x1 dt]
        launch_diffusion_frame[OF assms(1-3) f, of "(gdx, gdy)" "(bdx, bdy)" x0 x1 dt]
      by simp
  qed
qed

lemma reads_thread:
  assumes "0 < bdx" and "0 < bdy" and "(bdx + 2) * (bdy + 2) \<le> 2 ^ 32"
    and "0 \<le> tx" and "tx < bdx" and "0 \<le> ty" and "ty < bdy"
  shows "diffusion_shared_reads (bdx, bdy) (tx, ty) =
     [cell bdx tx ty, cell bdx tx ty - (bdx + 2), cell bdx tx ty + (bdx + 2),
      cell bdx tx ty - 1, cell bdx tx ty + 1]"
proof -
  define S where "S = cell bdx tx ty"
  have bd: "bdx < 2 ^ 32" "bdy < 2 ^ 32"
    using size_bounds[OF _ _ assms(3)] assms by simp_all
  note s = cell_bounds[OF assms(4-7)]
  have s1: "bdx + 3 \<le> S" and s2: "S + (bdx + 2) < 2 ^ 32"
    using s assms(3) by (auto simp: S_def)
  have sw: "u32 (bdx + 2) = bdx + 2"
    using assms s1 s2 bd by (simp_all add: u32_id)
  have sp: "u32 (tx + 1 + (ty + 1) * (bdx + 2)) = S"
    using s1 s2 assms unfolding S_def by (simp add: cell_def[symmetric] u32_id)
  have r: "u32 (S - (bdx + 2)) = S - (bdx + 2)" "u32 (S + (bdx + 2)) = S + (bdx + 2)"
    "u32 (S - 1) = S - 1" "u32 (S + 1) = S + 1"
    using s1 s2 assms by (simp_all add: u32_id)
  show ?thesis
    unfolding diffusion_shared_reads.simps Let_def sw sp r
    unfolding S_def by (rule refl)
qed

lemma reaches_thread:
  assumes "0 \<le> nx" and "0 \<le> ny" and "(nx + 2) * (ny + 2) \<le> 2 ^ 32"
    and "bdx * gdx \<le> 2 ^ 32" and "bdy * gdy \<le> 2 ^ 32"
    and "0 \<le> bx" and "bx < gdx" and "0 \<le> by" and "by < gdy"
    and "0 \<le> tx" and "tx < bdx" and "0 \<le> ty" and "ty < bdy"
  shows "reaches_syncthreads nx ny (bdx, bdy) (bx, by) (tx, ty) \<longleftrightarrow>
           tx + bx * bdx < nx \<and> ty + by * bdy < ny"
proof -
  have "u32 (tx + bx * bdx) = tx + bx * bdx" "u32 (ty + by * bdy) = ty + by * bdy"
    using assms by (simp_all add: global_index)
  moreover have "u32 nx = nx" "u32 ny = ny"
    using size_bounds[OF assms(1-3)] assms by (simp_all add: u32_id)
  ultimately show ?thesis by (simp add: Let_def)
qed

lemma compute_reads:
  assumes "0 \<le> nx" and "0 \<le> ny" and "(nx + 2) * (ny + 2) \<le> 2 ^ 32"
    and "0 < bdx" and "0 < bdy" and "(bdx + 2) * (bdy + 2) \<le> 2 ^ 32"
    and "bdx * gdx \<le> 2 ^ 32" and "bdy * gdy \<le> 2 ^ 32"
    and "0 \<le> bx" and "bx < gdx" and "0 \<le> by" and "by < gdy"
    and "0 \<le> tx" and "tx < bdx" and "0 \<le> ty" and "ty < bdy"
  shows "diffusion_shared_compute g buffer nx ny dt (bdx, bdy) (bx, by) (tx, ty) x1 =
     (if reaches_syncthreads nx ny (bdx, bdy) (bx, by) (tx, ty)
      then let r = map (shared_read g buffer) (diffusion_shared_reads (bdx, bdy) (tx, ty))
           in x1(cell nx (tx + bx * bdx) (ty + by * bdy) :=
                   r ! 0 + dt * (- 4 * r ! 0 + r ! 1 + r ! 2 + r ! 3 + r ! 4))
      else x1)"
  unfolding compute_thread[OF assms] reaches_thread[OF assms(1-3) assms(7-16)]
    reads_thread[OF assms(4-6) assms(13-16)]
  by (simp add: stencil_def Let_def)

lemma reads_staged_iff:
  fixes x0 :: "real array"
  assumes "0 \<le> nx" and "0 \<le> ny" and "(nx + 2) * (ny + 2) \<le> 2 ^ 32"
    and "0 < bdx" and "0 < bdy" and "(bdx + 2) * (bdy + 2) \<le> 2 ^ 32"
    and "bdx * gdx \<le> 2 ^ 32" and "bdy * gdy \<le> 2 ^ 32"
    and "0 \<le> bx" and "bx < gdx" and "0 \<le> by" and "by < gdy"
    and "0 \<le> tx" and "tx < bdx" and "0 \<le> ty" and "ty < bdy"
    and "tx + bx * bdx < nx" and "ty + by * bdy < ny"
  shows "set (diffusion_shared_reads (bdx, bdy) (tx, ty)) \<subseteq> dom (stage x0 nx ny (bdx, bdy) (bx, by))
         \<longleftrightarrow> (tx = bdx - 1 \<or> tx + 1 + bx * bdx < nx) \<and> (ty = bdy - 1 \<or> ty + 1 + by * bdy < ny)"
    and "diffusion_shared_reads (bdx, bdy) (tx, ty) ! 2 \<in> dom (stage x0 nx ny (bdx, bdy) (bx, by))
         \<longleftrightarrow> ty = bdy - 1 \<or> ty + 1 + by * bdy < ny"
  unfolding reads_thread[OF assms(4-6) assms(13-16)]
  using stage_thread[OF assms, of x0]
  by (auto simp: dom_def)

lemma height_facts:
  fixes n :: int
  assumes "pow \<le> 24" and "n = 2 ^ pow"
  shows "1 \<le> n" and "n \<le> 16777216" and "4 \<le> pow \<Longrightarrow> 16 dvd n" and "pow < 4 \<Longrightarrow> n \<le> 8"
proof -
  show "1 \<le> n" unfolding assms(2) by simp
  have "(2 :: int) ^ pow \<le> 2 ^ 24" using assms(1) by (intro power_increasing) simp_all
  then show "n \<le> 16777216" unfolding assms(2) by simp
  show "16 dvd n" if "4 \<le> pow"
  proof -
    have "(2 :: int) ^ 4 dvd 2 ^ pow" using that by (rule le_imp_power_dvd)
    then show ?thesis unfolding assms(2) by simp
  qed
  show "n \<le> 8" if "pow < 4"
  proof -
    have "(2 :: int) ^ pow \<le> 2 ^ 3" using that by (intro power_increasing) simp_all
    then show ?thesis unfolding assms(2) by simp
  qed
qed

lemma grid_rows:
  fixes n :: int
  assumes "1 \<le> n"
  shows "n \<le> 16 * ((n + 15) div 16)" and "16 * ((n + 15) div 16) \<le> n + 15"
    and "16 dvd n \<Longrightarrow> 16 * ((n + 15) div 16) = n" and "n \<le> 8 \<Longrightarrow> (n + 15) div 16 = 1"
    and "0 < (n + 15) div 16"
proof -
  define q r where "q = (n + 15) div 16" and "r = (n + 15) mod 16"
  have qr: "n + 15 = 16 * q + r" "0 \<le> r" "r < 16" by (simp_all add: q_def r_def)
  show "n \<le> 16 * ((n + 15) div 16)" using qr unfolding q_def[symmetric] by linarith
  show "16 * ((n + 15) div 16) \<le> n + 15" using qr unfolding q_def[symmetric] by linarith
  show "0 < (n + 15) div 16" using qr assms unfolding q_def[symmetric] by linarith
  show "16 * ((n + 15) div 16) = n" if d: "16 dvd n"
  proof -
    from d obtain m where m: "n = 16 * m" by (auto elim: dvdE)
    have "(16 * m + 15) div 16 = m" by simp
    then show ?thesis by (simp add: m)
  qed
  show "(n + 15) div 16 = 1" if "n \<le> 8"
    using qr assms that unfolding q_def[symmetric] by linarith
qed

lemma barrier_reached_full_blocks:
  assumes "4 \<le> pow" and "pow \<le> 24"
    and "b \<in> set (indices (8, (2 ^ pow + 15) div 16))" and "t \<in> set (indices (16, 16))"
  shows "reaches_syncthreads 128 (2 ^ pow) (16, 16) b t"
proof -
  define n :: int where "n = 2 ^ pow"
  note hf = height_facts[OF assms(2) n_def]
  note gr = grid_rows[OF hf(1)]
  obtain bx "by" tx ty where b: "b = (bx, by)" and t: "t = (tx, ty)"
    by (metis surj_pair)
  have r: "0 \<le> bx" "bx < 8" "0 \<le> by" "by < (n + 15) div 16" "0 \<le> tx" "tx < 16" "0 \<le> ty" "ty < 16"
    using assms(3,4) by (auto simp: b t set_indices n_def)
  have e: "16 * ((n + 15) div 16) = n" using hf(3)[OF assms(1)] by (rule gr(3))
  have "reaches_syncthreads 128 n (16, 16) (bx, by) (tx, ty) \<longleftrightarrow>
           tx + bx * 16 < 128 \<and> ty + by * 16 < n"
    using hf e r by (intro reaches_thread[where gdx = 8 and gdy = "(n + 15) div 16"]) simp_all
  moreover have "tx + bx * 16 < 128" "ty + by * 16 < n" using r e by linarith+
  ultimately show ?thesis by (simp add: b t n_def)
qed

section \<open>The driver: initial grid, steps and invariants\<close>

lemma height_small:
  fixes n :: int
  assumes "pow \<le> 23" and "n = 2 ^ pow"
  shows "n \<le> 8388608"
proof -
  have "(2 :: int) ^ pow \<le> 2 ^ 23" using assms(1) by (intro power_increasing) simp_all
  then show ?thesis unfolding assms(2) by simp
qed

lemma main_unfold:
  assumes "pow \<le> 23"
  shows "main dev pow nsteps use_shared =
     Some \<lparr>x_host = copy_to_host
              (fst (fold (time_step dev use_shared (8, (2 ^ pow + 15) div 16) (16, 16) 130 (2 ^ pow + 2) 0.1)
                      [0 ..< nsteps] (init_fills pow (malloc_x0 dev), init_fills pow (malloc_x1 dev))))
              (130 * (2 ^ pow + 2)),
           exit_status = 0\<rparr>"
proof -
  define n :: int where "n = 2 ^ pow"
  have n: "1 \<le> n" "n \<le> 8388608"
    using height_small[OF assms n_def] by (simp_all add: n_def)
  have r1: "u64 (128 + 2) = 130" by (simp add: u64_def)
  have r2: "s32 n = n" using n by (intro s32_id) simp_all
  have r3: "u64 (n + 2) = n + 2" using n by (intro u64_id) simp_all
  have r4: "u64 (130 * (n + 2)) = 130 * (n + 2)" using n by (intro u64_id) simp_all
  have r5: "s32 (130 * (n + 2)) = 130 * (n + 2)" using n by (intro s32_id) simp_all
  have r6: "s32 130 = 130" by (simp add: s32_def)
  have r7: "u64 (130 * (n + 2 - 1)) = 130 * (n + 1)" using n by (simp add: u64_id)
  have r8: "u32 (u64 (130 - 2 + 16 - 1) div 16) = 8" by (simp add: u32_def u64_def)
  have "u64 (n + 2 - 2 + 16 - 1) = n + 15" using n by (simp add: u64_id)
  moreover have "0 \<le> (n + 15) div 16" "(n + 15) div 16 < 2 ^ 32"
    using grid_rows(2,5)[OF n(1)] n by simp_all
  ultimately have r9: "u32 (u64 (n + 2 - 2 + 16 - 1) div 16) = (n + 15) div 16"
    by (simp add: u32_id)
  have p: "\<not> 31 \<le> pow" using assms by simp
  show ?thesis
    unfolding main_def Let_def fst_conv snd_conv n_def[symmetric] r1 r2 r3 r4 r5 r6 r7 r8 r9
      init_fills_def
    using p by simp
qed

lemma init_fills_cell:
  assumes "pow \<le> 23"
  shows "init_fills pow m k = (if 0 \<le> k \<and> k < 130 * (2 ^ pow + 2) then initial pow k else m k)"
proof -
  define n :: int where "n = 2 ^ pow"
  have n: "1 \<le> n" "n \<le> 8388608"
    using height_small[OF assms n_def] by (simp_all add: n_def)
  have b: "(0 :: int) \<le> 130" "(130 :: int) \<le> 2147483520" "0 \<le> 130 * (n + 2)"
    "130 * (n + 2) \<le> 2147483520"
    using n by simp_all
  show ?thesis
    unfolding init_fills_def initial_def n_def[symmetric]
      fill_gpu_cell[OF b(1,2)] fill_gpu_cell[OF b(3,4)]
    using n by auto
qed

lemma time_step_eq:
  assumes "pow \<le> 23"
  shows "time_step dev use_shared g (16, 16) 130 (2 ^ pow + 2) dt step (x0, x1) =
     (if use_shared
      then launch_diffusion_shared g (16, 16) 2592 (shared_garbage dev step) x0 x1 128 (2 ^ pow) dt
      else launch_diffusion g (16, 16) x0 x1 128 (2 ^ pow) dt, x0)"
proof -
  define n :: int where "n = 2 ^ pow"
  have n: "1 \<le> n" "n \<le> 8388608"
    using height_small[OF assms n_def] by (simp_all add: n_def)
  have r1: "s32 (u64 (130 - 2)) = 128" by (simp add: s32_def u64_def)
  have "u64 (n + 2 - 2) = n" using n by (simp add: u64_id)
  then have r2: "s32 (u64 (n + 2 - 2)) = n" using n by (simp add: s32_id)
  have r3: "u64 (u32 ((16 + 2) * (16 + 2)) * 8) = 2592" by (simp add: u32_def u64_def)
  show ?thesis
    unfolding time_step_def Let_def prod.case fst_conv snd_conv n_def[symmetric] r1 r2 r3
    by simp
qed

lemma fold_invariant:
  assumes "P s" and "\<And>x s. P s \<Longrightarrow> P (f x s)"
  shows "P (fold f xs s)"
  using assms(1) by (induction xs arbitrary: s) (simp_all add: assms(2))

lemma main_grid:
  fixes n :: int
  assumes "pow \<le> 23" and "n = 2 ^ pow"
  shows "(0 :: int) \<le> 128" and "0 \<le> n" and "(128 + 2) * (n + 2) \<le> 2 ^ 32"
    and "(0 :: int) < 16" and "(16 + 2) * (16 + 2) \<le> (2 :: int) ^ 32"
    and "(16 :: int) * 8 \<le> 2 ^ 32" and "16 * ((n + 15) div 16) \<le> 2 ^ 32"
    and "(128 :: int) \<le> 16 * 8" and "n \<le> 16 * ((n + 15) div 16)"
proof -
  have n: "1 \<le> n" "n \<le> 8388608"
    using height_small[OF assms] by (simp_all add: assms(2))
  show "(0 :: int) \<le> 128" "0 \<le> n" "(128 + 2) * (n + 2) \<le> 2 ^ 32" "(0 :: int) < 16"
    "(16 + 2) * (16 + 2) \<le> (2 :: int) ^ 32" "(16 :: int) * 8 \<le> 2 ^ 32" "(128 :: int) \<le> 16 * 8"
    using n by simp_all
  show "16 * ((n + 15) div 16) \<le> 2 ^ 32" "n \<le> 16 * ((n + 15) div 16)"
    using grid_rows(1,2)[OF n(1)] n by simp_all
qed

lemma step_frame:
  assumes "pow \<le> 23"
    and "\<And>i j. 0 \<le> i \<Longrightarrow> i < 128 \<Longrightarrow> 0 \<le> j \<Longrightarrow> j < 2 ^ pow \<Longrightarrow> k \<noteq> cell 128 i j"
  shows "fst (time_step dev use_shared (8, (2 ^ pow + 15) div 16) (16, 16) 130 (2 ^ pow + 2) dt step (x0, x1)) k
           = x1 k"
proof -
  define n :: int where "n = 2 ^ pow"
  note g = main_grid[OF assms(1) n_def]
  show ?thesis
    unfolding n_def[symmetric] time_step_eq[OF assms(1), folded n_def]
    using launch_shared_frame[OF g(1-3) g(4) g(4) g(5-7) assms(2)[folded n_def],
        of 2592 "shared_garbage dev step" x0 x1 dt]
      launch_diffusion_frame[OF g(1-3) assms(2)[folded n_def],
        of "(8, (n + 15) div 16)" "(16, 16)" x0 x1 dt]
    by simp
qed

lemma boundary_not_interior:
  assumes "0 \<le> ny" and "k < 130 \<or> 130 * (ny + 1) \<le> k"
    and "0 \<le> i" and "i < 128" and "0 \<le> j" and "j < ny"
  shows "k \<noteq> cell 128 i j"
  using cell_bounds[OF assms(3-6)] assms(2) by auto

lemma boundary_rows_step:
  assumes "pow \<le> 23" and "boundary_rows pow xs"
  shows "boundary_rows pow
           (time_step dev use_shared (8, (2 ^ pow + 15) div 16) (16, 16) 130 (2 ^ pow + 2) dt step xs)"
proof -
  obtain x0 x1 where xs: "xs = (x0, x1)" by (cases xs)
  have s: "snd (time_step dev use_shared (8, (2 ^ pow + 15) div 16) (16, 16) 130 (2 ^ pow + 2) dt step (x0, x1)) = x0"
    by (simp add: time_step_eq[OF assms(1)])
  show ?thesis
    unfolding boundary_rows_def xs s
  proof (intro allI impI)
    fix k :: int
    assume k: "0 \<le> k \<and> k < 130 * (2 ^ pow + 2) \<and> (k < 130 \<or> 130 * (2 ^ pow + 1) \<le> k)"
    have "fst (time_step dev use_shared (8, (2 ^ pow + 15) div 16) (16, 16) 130 (2 ^ pow + 2) dt step (x0, x1)) k
           = x1 k"
      using k by (intro step_frame[OF assms(1)] boundary_not_interior[of "2 ^ pow"]) simp_all
    then show "fst (time_step dev use_shared (8, (2 ^ pow + 15) div 16) (16, 16) 130 (2 ^ pow + 2) dt step (x0, x1)) k = 1
        \<and> x0 k = 1"
      using assms(2) k by (simp add: boundary_rows_def xs)
  qed
qed

lemma boundary_rows_init:
  assumes "pow \<le> 23"
  shows "boundary_rows pow (init_fills pow m0, init_fills pow m1)"
  by (simp add: boundary_rows_def init_fills_cell[OF assms] initial_def)

lemma x_host_nth:
  assumes "0 \<le> k" and "k < n"
  shows "copy_to_host x n ! nat k = x k" and "nat k < length (copy_to_host x n)"
proof -
  have "[0 .. n - 1] ! nat k = 0 + int (nat k)"
    using assms by (intro nth_upto) simp
  moreover have "nat k < length [0 .. n - 1]" using assms by simp
  ultimately show "copy_to_host x n ! nat k = x k" "nat k < length (copy_to_host x n)"
    using assms by (simp_all add: copy_to_host_def)
qed

lemma halo_not_interior:
  assumes "0 \<le> c" and "c \<le> nx + 1" and "r = 0 \<or> r = ny + 1 \<or> c = 0 \<or> c = nx + 1"
    and "0 \<le> i" and "i < nx" and "0 \<le> j" and "j < ny"
  shows "c + r * (nx + 2) \<noteq> cell nx i j"
proof
  assume "c + r * (nx + 2) = cell nx i j"
  then have "lin (nx + 2) c r = lin (nx + 2) (i + 1) (j + 1)"
    by (simp add: lin_def cell_def)
  then have "c = i + 1 \<and> r = j + 1"
    using assms by (intro lin_inj[of c "nx + 2"]) simp_all
  then show False using assms by auto
qed

lemma main_boundary:
  assumes "pow \<le> 23"
  shows "\<exists>out. main dev pow nsteps use_shared = Some out
           \<and> (\<forall>k. 0 \<le> k \<and> k < 130 \<longrightarrow>
                 x_host out ! nat k = 1 \<and> x_host out ! nat (130 * (2 ^ pow + 1) + k) = 1)"
proof -
  let ?f = "time_step dev use_shared (8, (2 ^ pow + 15) div 16) (16, 16) 130 (2 ^ pow + 2) 0.1"
  let ?s = "fold ?f [0 ..< nsteps] (init_fills pow (malloc_x0 dev), init_fills pow (malloc_x1 dev))"
  have inv: "boundary_rows pow ?s"
    by (rule fold_invariant[where P = "boundary_rows pow"])
       (simp_all add: boundary_rows_init[OF assms] boundary_rows_step[OF assms])
  have "copy_to_host (fst ?s) (130 * (2 ^ pow + 2)) ! nat k = 1
      \<and> copy_to_host (fst ?s) (130 * (2 ^ pow + 2)) ! nat (130 * (2 ^ pow + 1) + k) = 1"
    if "0 \<le> k \<and> k < 130" for k :: int
  proof -
    define n :: int where "n = 2 ^ pow"
    have p: "0 \<le> n" by (simp add: n_def)
    have "0 \<le> k" "k < 130 * (n + 2)" "0 \<le> 130 * (n + 1) + k" "130 * (n + 1) + k < 130 * (n + 2)"
      using that p by auto
    then have a: "0 \<le> k" "k < 130 * (2 ^ pow + 2)"
      and b: "0 \<le> 130 * (2 ^ pow + 1) + k" "130 * (2 ^ pow + 1) + k < 130 * (2 ^ pow + 2)"
      unfolding n_def by blast+
    have c: "fst ?s k = 1" "fst ?s (130 * (2 ^ pow + 1) + k) = 1"
      using inv that a b unfolding boundary_rows_def by simp_all
    show ?thesis unfolding x_host_nth(1)[OF a] x_host_nth(1)[OF b] by (intro conjI c)
  qed
  then show ?thesis unfolding main_unfold[OF assms] by simp
qed

lemma copy_to_host_cong:
  assumes "\<And>k. 0 \<le> k \<Longrightarrow> k < n \<Longrightarrow> x k = y k"
  shows "copy_to_host x n = copy_to_host y n"
  unfolding copy_to_host_def by (rule map_cong[OF refl]) (simp add: assms)

lemma one_step_last_row:
  shows "\<exists>out. main dev 3 1 True = Some out
           \<and> x_host out ! 1041 = 0.1 * shared_garbage dev 0 (0, 0) 163"
    and "\<exists>out. main dev 3 1 False = Some out \<and> x_host out ! 1041 = 0.1"
proof -
  have h: "(3 :: nat) \<le> 23" by simp
  let ?a = "init_fills 3 (malloc_x0 dev)" and ?b = "init_fills 3 (malloc_x1 dev)"
  have a: "?a 1041 = 0" "?a 911 = 0" "?a 1040 = 0" "?a 1042 = 0" "?a 1171 = 1"
    by (simp_all add: init_fills_cell[OF h] initial_def)
  have k: "(0 :: int) \<le> 1041" "(1041 :: int) < 130 * (2 ^ 3 + 2)" by simp_all
  have c: "cell 128 0 7 = 1041" "cell 16 0 7 = 145" by (simp_all add: cell_def)
  have t: "launch_diffusion_shared (8, 1) (16, 16) 2592 (shared_garbage dev 0)
             ?a ?b 128 8 0.1 (cell 128 0 7) = tiled_value ?a (shared_garbage dev 0) 128 8 0.1 (16, 16) 0 7"
    by (intro launch_shared_interior) simp_all
  have n: "launch_diffusion (8, 1) (16, 16) ?a ?b 128 8 0.1 (cell 128 0 7) =
             stencil ?a 0.1 (128 + 2) (cell 128 0 7)"
    by (intro launch_diffusion_interior) simp_all
  have tv: "tiled_value ?a (shared_garbage dev 0) 128 8 0.1 (16, 16) 0 7 =
              0.1 * shared_garbage dev 0 (0, 0) 163"
    by (simp add: tiled_value_def Let_def c a)
  have sv: "stencil ?a 0.1 (128 + 2) (cell 128 0 7) = 0.1"
    by (simp add: stencil_def c a)
  have "copy_to_host (launch_diffusion_shared (8, 1) (16, 16) 2592
            (shared_garbage dev 0) ?a ?b 128 8 0.1) (130 * (2 ^ 3 + 2)) ! nat 1041
          = 0.1 * shared_garbage dev 0 (0, 0) 163"
    unfolding x_host_nth(1)[OF k] using t tv by (simp add: c)
  then show "\<exists>out. main dev 3 1 True = Some out
           \<and> x_host out ! 1041 = 0.1 * shared_garbage dev 0 (0, 0) 163"
    unfolding main_unfold[OF h] by (simp add: time_step_eq[OF h, simplified])
  have "copy_to_host (launch_diffusion (8, 1) (16, 16) ?a ?b 128 8 0.1) (130 * (2 ^ 3 + 2)) ! nat 1041
          = 0.1"
    unfolding x_host_nth(1)[OF k] using n sv by (simp add: c)
  then show "\<exists>out. main dev 3 1 False = Some out \<and> x_host out ! 1041 = 0.1"
    unfolding main_unfold[OF h] by (simp add: time_step_eq[OF h, simplified])
qed

lemma step_strategies_agree:
  assumes "4 \<le> pow" and "pow \<le> 23"
  shows "time_step dev True (8, (2 ^ pow + 15) div 16) (16, 16) 130 (2 ^ pow + 2) dt step xs =
         time_step dev False (8, (2 ^ pow + 15) div 16) (16, 16) 130 (2 ^ pow + 2) dt step xs"
proof -
  define n :: int where "n = 2 ^ pow"
  obtain x0 x1 where xs: "xs = (x0, x1)" by (cases xs)
  note g = main_grid[OF assms(2) n_def]
  have "pow \<le> 24" using assms(2) by simp
  note hf = height_facts[OF this n_def]
  have d: "(16 :: int) dvd 128" "16 dvd n" using hf(3)[OF assms(1)] by simp_all
  show ?thesis
    unfolding xs n_def[symmetric] time_step_eq[OF assms(2), folded n_def]
    using tiled_equals_naive_aligned[OF g(1-3) g(4) g(4) g(5-9) d,
        of 2592 "shared_garbage dev step" x0 x1 dt]
    by simp
qed

lemma strategies_agree_full_blocks:
  assumes "4 \<le> pow" and "pow \<le> 23"
  shows "main dev pow nsteps True = main dev pow nsteps False"
  unfolding main_unfold[OF assms(2)] step_strategies_agree[OF assms, abs_def] by (rule refl)

lemma stencil_range:
  fixes dt :: real
  assumes "0 \<le> dt" and "4 * dt \<le> 1"
    and "0 \<le> x0 k \<and> x0 k \<le> 1" and "0 \<le> x0 (k - w) \<and> x0 (k - w) \<le> 1"
    and "0 \<le> x0 (k + w) \<and> x0 (k + w) \<le> 1" and "0 \<le> x0 (k - 1) \<and> x0 (k - 1) \<le> 1"
    and "0 \<le> x0 (k + 1) \<and> x0 (k + 1) \<le> 1"
  shows "0 \<le> stencil x0 dt w k \<and> stencil x0 dt w k \<le> 1"
proof -
  define c n s ww e where "c = x0 k" and "n = x0 (k - w)" and "s = x0 (k + w)"
    and "ww = x0 (k - 1)" and "e = x0 (k + 1)"
  have r: "0 \<le> c" "c \<le> 1" "0 \<le> n" "n \<le> 1" "0 \<le> s" "s \<le> 1" "0 \<le> ww" "ww \<le> 1" "0 \<le> e" "e \<le> 1"
    using assms(3-7) by (simp_all add: c_def n_def s_def ww_def e_def)
  have eq: "stencil x0 dt w k = (1 - 4 * dt) * c + dt * (n + s + ww + e)"
    by (simp add: stencil_def c_def n_def s_def ww_def e_def algebra_simps)
  have p1: "0 \<le> (1 - 4 * dt) * c" using assms(2) r by (intro mult_nonneg_nonneg) simp_all
  have p2: "(1 - 4 * dt) * c \<le> (1 - 4 * dt) * 1" using assms(2) r by (intro mult_left_mono) simp_all
  have p3: "0 \<le> dt * (n + s + ww + e)" using assms(1) r by (intro mult_nonneg_nonneg) simp_all
  have p4: "dt * (n + s + ww + e) \<le> dt * 4" using assms(1) r by (intro mult_left_mono) simp_all
  define A B where "A = (1 - 4 * dt) * c" and "B = dt * (n + s + ww + e)"
  have "0 \<le> A" "A \<le> 1 - 4 * dt" "0 \<le> B" "B \<le> 4 * dt"
    using p1 p2 p3 p4 by (simp_all add: A_def B_def)
  then have "0 \<le> A + B \<and> A + B \<le> 1" by linarith
  then show ?thesis unfolding eq A_def B_def .
qed

lemma unit_interval_step:
  fixes dt :: real
  assumes "pow \<le> 23" and "0 \<le> dt" and "4 * dt \<le> 1" and "in_unit_interval pow xs"
  shows "in_unit_interval pow
           (time_step dev False (8, (2 ^ pow + 15) div 16) (16, 16) 130 (2 ^ pow + 2) dt step xs)"
proof -
  define n :: int where "n = 2 ^ pow"
  obtain x0 x1 where xs: "xs = (x0, x1)" by (cases xs)
  note g = main_grid[OF assms(1) n_def]
  have rng: "0 \<le> x0 k \<and> x0 k \<le> 1" "0 \<le> x1 k \<and> x1 k \<le> 1" if "0 \<le> k" "k < 130 * (n + 2)" for k
    using assms(4) that by (simp_all add: in_unit_interval_def xs n_def)
  have new: "0 \<le> launch_diffusion (8, (n + 15) div 16) (16, 16) x0 x1 128 n dt k
           \<and> launch_diffusion (8, (n + 15) div 16) (16, 16) x0 x1 128 n dt k \<le> 1"
    if k: "0 \<le> k" "k < 130 * (n + 2)" for k
  proof (cases "\<exists>i j. 0 \<le> i \<and> i < 128 \<and> 0 \<le> j \<and> j < n \<and> k = cell 128 i j")
    case True
    then obtain i j where ij: "0 \<le> i" "i < 128" "0 \<le> j" "j < n" and kc: "k = cell 128 i j"
      by blast
    note b = cell_bounds[OF ij]
    have "0 \<le> stencil x0 dt (128 + 2) k \<and> stencil x0 dt (128 + 2) k \<le> 1"
      using b unfolding kc[symmetric]
      by (intro stencil_range[OF assms(2,3)] rng) simp_all
    then show ?thesis
      unfolding kc launch_diffusion_interior[OF g(1-3) g(4) g(4) g(8,9) ij] .
  next
    case False
    then have f: "\<And>i j. 0 \<le> i \<Longrightarrow> i < 128 \<Longrightarrow> 0 \<le> j \<Longrightarrow> j < n \<Longrightarrow> k \<noteq> cell 128 i j"
      by blast
    show ?thesis
      using launch_diffusion_frame[OF g(1-3) f, of "(8, (n + 15) div 16)" "(16, 16)" x0 x1 dt]
        rng(2)[OF k]
      by simp
  qed
  show ?thesis
    unfolding in_unit_interval_def xs n_def[symmetric] time_step_eq[OF assms(1), folded n_def]
    using new rng by simp
qed

lemma maximum_principle_full_blocks:
  assumes "pow \<le> 23" and "use_shared \<longrightarrow> 4 \<le> pow"
  shows "\<exists>out. main dev pow nsteps use_shared = Some out
           \<and> (\<forall>k. 0 \<le> k \<and> k < 130 * (2 ^ pow + 2) \<longrightarrow>
                 0 \<le> x_host out ! nat k \<and> x_host out ! nat k \<le> 1)"
proof -
  let ?f = "time_step dev False (8, (2 ^ pow + 15) div 16) (16, 16) 130 (2 ^ pow + 2) 0.1"
  let ?s = "fold ?f [0 ..< nsteps] (init_fills pow (malloc_x0 dev), init_fills pow (malloc_x1 dev))"
  have m: "main dev pow nsteps use_shared = main dev pow nsteps False"
    using assms strategies_agree_full_blocks[of pow dev nsteps] by (cases use_shared) simp_all
  have i0: "in_unit_interval pow (init_fills pow (malloc_x0 dev), init_fills pow (malloc_x1 dev))"
    by (simp add: in_unit_interval_def init_fills_cell[OF assms(1)] initial_def)
  have inv: "in_unit_interval pow ?s"
    by (rule fold_invariant[where P = "in_unit_interval pow", OF i0])
       (rule unit_interval_step[OF assms(1)], simp_all)
  have "0 \<le> copy_to_host (fst ?s) (130 * (2 ^ pow + 2)) ! nat k
      \<and> copy_to_host (fst ?s) (130 * (2 ^ pow + 2)) ! nat k \<le> 1"
    if "0 \<le> k \<and> k < 130 * (2 ^ pow + 2)" for k :: int
  proof -
    have a: "0 \<le> k" "k < 130 * (2 ^ pow + 2)" using that by blast+
    show ?thesis
      unfolding x_host_nth(1)[OF a] using inv that unfolding in_unit_interval_def by simp
  qed
  then have "\<exists>out. main dev pow nsteps False = Some out
           \<and> (\<forall>k. 0 \<le> k \<and> k < 130 * (2 ^ pow + 2) \<longrightarrow>
                 0 \<le> x_host out ! nat k \<and> x_host out ! nat k \<le> 1)"
    unfolding main_unfold[OF assms(1)] by simp
  then show ?thesis by (simp only: m)
qed

lemma zero_step_initial_grid:
  assumes "pow \<le> 23"
  shows "\<exists>out. main dev pow 0 use_shared = Some out
           \<and> length (x_host out) = nat (130 * (2 ^ pow + 2))
           \<and> (\<forall>k. 0 \<le> k \<and> k < 130 * (2 ^ pow + 2) \<longrightarrow>
                 x_host out ! nat k = (if k < 130 \<or> 130 * (2 ^ pow + 1) \<le> k then 1 else 0))"
proof -
  have "copy_to_host (init_fills pow (malloc_x0 dev)) (130 * (2 ^ pow + 2)) ! nat k =
          (if k < 130 \<or> 130 * (2 ^ pow + 1) \<le> k then 1 else 0)"
    if "0 \<le> k \<and> k < 130 * (2 ^ pow + 2)" for k :: int
  proof -
    have a: "0 \<le> k" "k < 130 * (2 ^ pow + 2)" using that by blast+
    show ?thesis
      unfolding x_host_nth(1)[OF a] init_fills_cell[OF assms] initial_def using that by simp
  qed
  moreover have "length (copy_to_host (init_fills pow (malloc_x0 dev)) (130 * (2 ^ pow + 2))) =
          nat (130 * (2 ^ pow + 2))"
    by (simp add: copy_to_host_def)
  ultimately show ?thesis unfolding main_unfold[OF assms] by simp
qed

lemma main_zero_steps_24:
  "main dev 24 0 use_shared =
     Some \<lparr>x_host = copy_to_host
              (fill_gpu 2181038210 1 130 (fill_gpu 0 1 130 (fill_gpu 0 0 (- 2113928956) (malloc_x0 dev))))
              2181038340,
           exit_status = 0\<rparr>"
  by (simp add: main_def Let_def u64_def s32_def)

lemma unfilled_cell_24:
  assumes "130 \<le> k" and "k < 2181038210"
  shows "fill_gpu 2181038210 1 130 (fill_gpu 0 1 130 (fill_gpu 0 0 (- 2113928956) m)) k = m k"
proof -
  have b: "(0 :: int) \<le> 130" "(130 :: int) \<le> 2147483520" by simp_all
  have "0 + (- 2113928956) \<le> k" using assms by simp
  then have "fill_gpu 0 0 (- 2113928956) m k = m k" by (rule fill_gpu_above)
  then show ?thesis using assms by (simp add: fill_gpu_cell[OF b])
qed

section \<open>The contract of the fill operation\<close>

text \<open>
  Claim C8.  For a count \<open>n\<close> whose launch indexes every thread within \<open>int\<close>
  (\<open>0 \<le> n \<le> 2147483520 = 192 * 11184810\<close>), \<open>fill_gpu\<close> sets exactly the
  \<open>n\<close> elements \<open>v[0]\<close>, ..., \<open>v[n-1]\<close> to the value and leaves every other element
  as it was, and a launched thread whose index is \<open>n\<close> or more changes nothing.
\<close>

theorem fill_gpu_sets_first_n:
  assumes "0 \<le> n" and "n \<le> 2147483520"
  shows "(\<forall>k. 0 \<le> k \<and> k < n \<longrightarrow> fill_gpu v value n mem (v + k) = value)
       \<and> (\<forall>k. \<not> (0 \<le> k \<and> k < n) \<longrightarrow> fill_gpu v value n mem (v + k) = mem (v + k))
       \<and> (\<forall>bx tx. 0 \<le> bx \<and> 0 \<le> tx \<and> tx < 192 \<and> n \<le> tx + 192 * bx \<and> tx + 192 * bx < 2 ^ 31
             \<longrightarrow> fill v value n (192, 1) (bx, 0) (tx, 0) mem = mem)"
proof (intro conjI allI impI)
  fix k :: int
  assume "0 \<le> k \<and> k < n"
  then show "fill_gpu v value n mem (v + k) = value"
    by (simp add: fill_gpu_cell[OF assms])
next
  fix k :: int
  assume "\<not> (0 \<le> k \<and> k < n)"
  then show "fill_gpu v value n mem (v + k) = mem (v + k)"
    by (auto simp: fill_gpu_cell[OF assms])
next
  fix bx tx :: int
  assume a: "0 \<le> bx \<and> 0 \<le> tx \<and> tx < 192 \<and> n \<le> tx + 192 * bx \<and> tx + 192 * bx < 2 ^ 31"
  then have "s32 (u32 (tx + 192 * bx)) = tx + 192 * bx"
    by (simp add: u32_id s32_id)
  then show "fill v value n (192, 1) (bx, 0) (tx, 0) mem = mem"
    using a by simp
qed

theorem fill_gpu_sets_first_n_witness:
  "fill_gpu 10 (7 :: int) 3 (\<lambda>_. 0) 12 = 7
   \<and> fill_gpu 10 (7 :: int) 3 (\<lambda>_. 0) 13 = 0
   \<and> fill_gpu 10 (7 :: int) 3 (\<lambda>_. 0) 9 = 0
   \<and> fill 10 (7 :: int) 3 (192, 1) (0, 0) (3, 0) (\<lambda>_. 0) = (\<lambda>_. 0)"
proof -
  have h: "(0 :: int) \<le> 3" "(3 :: int) \<le> 2147483520" by simp_all
  note c = fill_gpu_sets_first_n[OF h, of 10 "7 :: int" "\<lambda>_. 0"]
  have "fill_gpu 10 (7 :: int) 3 (\<lambda>_. 0) (10 + 2) = 7"
    using c by (elim conjE allE[of _ 2]) simp
  moreover have "fill_gpu 10 (7 :: int) 3 (\<lambda>_. 0) (10 + 3) = 0"
    using c by (elim conjE allE[of _ 3]) simp
  moreover have "fill_gpu 10 (7 :: int) 3 (\<lambda>_. 0) (10 + (- 1)) = 0"
    using c by (elim conjE allE[of _ "- 1"]) simp
  moreover have "fill 10 (7 :: int) 3 (192, 1) (0, 0) (3, 0) (\<lambda>_. 0) = (\<lambda>_. 0)"
    using c by (elim conjE allE[of _ 0] allE[of _ 3]) simp
  ultimately show ?thesis by simp
qed


section \<open>The update of the naive kernel\<close>

text \<open>
  Claim C3.  For a padded grid that 32-bit indices address
  (\<open>(nx + 2) * (ny + 2) \<le> 2 ^ 32\<close>) and a launch whose blocks cover the interior, the
  naive kernel leaves in every interior cell \<open>pos = (i+1) + (j+1)*width\<close>,
  \<open>width = nx+2\<close>, the value
  \<open>src[pos] + dt * (-4*src[pos] + src[pos-width] + src[pos+width] + src[pos-1] + src[pos+1])\<close>,
  it changes no other cell, and a thread whose coordinates lie outside
  \<open>[0,nx) x [0,ny)\<close> does nothing.
\<close>

theorem diffusion_writes_stencil:
  assumes "0 \<le> nx" and "0 \<le> ny" and "(nx + 2) * (ny + 2) \<le> 2 ^ 32"
    and "0 < bdx" and "0 < bdy" and "nx \<le> bdx * gdx" and "ny \<le> bdy * gdy"
  shows "(\<forall>i j. 0 \<le> i \<and> i < nx \<and> 0 \<le> j \<and> j < ny \<longrightarrow>
            (let width = nx + 2; pos = (i + 1) + (j + 1) * width
             in launch_diffusion (gdx, gdy) (bdx, bdy) x0 x1 nx ny dt pos =
                  x0 pos + dt * (- 4 * x0 pos + x0 (pos - width) + x0 (pos + width)
                                 + x0 (pos - 1) + x0 (pos + 1))))
       \<and> (\<forall>k. (\<forall>i j. 0 \<le> i \<and> i < nx \<and> 0 \<le> j \<and> j < ny \<longrightarrow> k \<noteq> (i + 1) + (j + 1) * (nx + 2)) \<longrightarrow>
            launch_diffusion (gdx, gdy) (bdx, bdy) x0 x1 nx ny dt k = x1 k)
       \<and> (\<forall>bx by tx ty. \<not> (u32 (tx + bx * bdx) < nx \<and> u32 (ty + by * bdy) < ny) \<longrightarrow>
            diffusion x0 nx ny dt (bdx, bdy) (bx, by) (tx, ty) x1 = x1)"
proof (intro conjI allI impI)
  fix i j
  assume a: "0 \<le> i \<and> i < nx \<and> 0 \<le> j \<and> j < ny"
  then have "launch_diffusion (gdx, gdy) (bdx, bdy) x0 x1 nx ny dt (cell nx i j) =
           stencil x0 dt (nx + 2) (cell nx i j)"
    using assms by (intro launch_diffusion_interior) simp_all
  then show "let width = nx + 2; pos = (i + 1) + (j + 1) * width
             in launch_diffusion (gdx, gdy) (bdx, bdy) x0 x1 nx ny dt pos =
                  x0 pos + dt * (- 4 * x0 pos + x0 (pos - width) + x0 (pos + width)
                                 + x0 (pos - 1) + x0 (pos + 1))"
    by (simp add: cell_def stencil_def Let_def)
next
  fix k
  assume "\<forall>i j. 0 \<le> i \<and> i < nx \<and> 0 \<le> j \<and> j < ny \<longrightarrow> k \<noteq> (i + 1) + (j + 1) * (nx + 2)"
  then show "launch_diffusion (gdx, gdy) (bdx, bdy) x0 x1 nx ny dt k = x1 k"
    using assms(1-3) by (intro launch_diffusion_frame) (simp_all add: cell_def)
next
  fix bx "by" tx ty
  assume "\<not> (u32 (tx + bx * bdx) < nx \<and> u32 (ty + by * bdy) < ny)"
  then show "diffusion x0 nx ny dt (bdx, bdy) (bx, by) (tx, ty) x1 = x1"
    using diffusion_thread[OF assms(1-3), of x0 dt bdx bdy bx "by" tx ty x1] by auto
qed

theorem diffusion_writes_stencil_witness:
  "launch_diffusion (1, 1) (16, 16) (\<lambda>k. real_of_int (k * k)) (\<lambda>_. 0) 4 4 (1 / 2) 7 = 86
   \<and> launch_diffusion (1, 1) (16, 16) (\<lambda>k. real_of_int (k * k)) (\<lambda>_. 0) 4 4 (1 / 2) 6 = 0
   \<and> diffusion (\<lambda>k. real_of_int (k * k)) 4 4 (1 / 2) (16, 16) (0, 0) (4, 0) (\<lambda>_. 0) = (\<lambda>_. 0)"
proof -
  have h: "(0 :: int) \<le> 4" "(4 + 2) * (4 + 2) \<le> (2 :: int) ^ 32" "(0 :: int) < 16"
    "(4 :: int) \<le> 16 * 1"
    by simp_all
  note c = diffusion_writes_stencil[OF h(1) h(1) h(2) h(3) h(3) h(4) h(4),
      of "\<lambda>k. real_of_int (k * k)" "\<lambda>_. 0" "1 / 2"]
  note c1 = c[THEN conjunct1, rule_format, of 0 0]
    and c2 = c[THEN conjunct2, THEN conjunct1, THEN spec, of 6]
    and c3 = c[THEN conjunct2, THEN conjunct2, rule_format, of 4 0 0 0]
  have 1: "launch_diffusion (1, 1) (16, 16) (\<lambda>k. real_of_int (k * k)) (\<lambda>_. 0) 4 4 (1 / 2) 7 = 86"
    using c1 by (simp add: Let_def)
  have "\<forall>i j. 0 \<le> i \<and> i < 4 \<and> 0 \<le> j \<and> j < 4 \<longrightarrow> (6 :: int) \<noteq> (i + 1) + (j + 1) * (4 + 2)"
    by auto
  then have 2: "launch_diffusion (1, 1) (16, 16) (\<lambda>k. real_of_int (k * k)) (\<lambda>_. 0) 4 4 (1 / 2) 6 = 0"
    using c2 by (elim impE) auto
  have "\<not> (u32 (4 + 0 * 16) < 4 \<and> u32 (0 + 0 * 16) < 4)"
    by (simp add: u32_def)
  then have 3: "diffusion (\<lambda>k. real_of_int (k * k)) 4 4 (1 / 2) (16, 16) (0, 0) (4, 0) (\<lambda>_. 0) = (\<lambda>_. 0)"
    by (rule c3)
  show ?thesis using 1 2 3 by (intro conjI)
qed

section \<open>The single-step scenario\<close>

text \<open>
  Claim C6.  On a grid whose north and south boundary rows hold 1 and whose other cells
  hold 0, with at least two interior rows, one step of the naive kernel with
  \<open>dt = 0.1\<close> leaves \<open>0 + 0.1 * (-4*0 + 1 + 0 + 0 + 0) = 0.1\<close> in every interior cell
  of the row next to the top boundary, and 0 in every interior cell that has no
  boundary row as a neighbour.  The witness is the scenario of the specification,
  \<open>nx = ny = 4\<close>.
\<close>

theorem single_step_scenario:
  assumes "0 \<le> nx" and "2 \<le> ny" and "(nx + 2) * (ny + 2) \<le> 2 ^ 32"
    and "0 < bdx" and "0 < bdy" and "nx \<le> bdx * gdx" and "ny \<le> bdy * gdy"
    and "\<forall>c r. 0 \<le> c \<and> c \<le> nx + 1 \<and> 0 \<le> r \<and> r \<le> ny + 1 \<longrightarrow>
           x0 (c + r * (nx + 2)) = (if r = 0 \<or> r = ny + 1 then 1 else 0)"
  shows "(\<forall>i. 0 \<le> i \<and> i < nx \<longrightarrow>
            launch_diffusion (gdx, gdy) (bdx, bdy) x0 x1 nx ny 0.1 ((i + 1) + 1 * (nx + 2)) = 0.1)
       \<and> (\<forall>i j. 0 \<le> i \<and> i < nx \<and> 1 \<le> j \<and> j < ny - 1 \<longrightarrow>
            launch_diffusion (gdx, gdy) (bdx, bdy) x0 x1 nx ny 0.1 ((i + 1) + (j + 1) * (nx + 2)) = 0)"
proof (intro conjI allI impI)
  have ny: "0 \<le> ny" using assms(2) by simp
  note g = assms(8)[rule_format]
  have at: "x0 (cell nx i j - 1) = (if j + 1 = 0 \<or> j = ny then 1 else 0)"
    "x0 (cell nx i j) = (if j + 1 = 0 \<or> j = ny then 1 else 0)"
    "x0 (cell nx i j + 1) = (if j + 1 = 0 \<or> j = ny then 1 else 0)"
    "x0 (cell nx i j - (nx + 2)) = (if j = 0 \<or> j = ny + 1 then 1 else 0)"
    "x0 (cell nx i j + (nx + 2)) = (if j + 2 = 0 \<or> j + 1 = ny then 1 else 0)"
    if "0 \<le> i" "i < nx" "0 \<le> j" "j < ny" for i j
  proof -
    have e: "cell nx i j - 1 = i + (j + 1) * (nx + 2)" "cell nx i j = (i + 1) + (j + 1) * (nx + 2)"
      "cell nx i j + 1 = (i + 2) + (j + 1) * (nx + 2)"
      "cell nx i j - (nx + 2) = (i + 1) + j * (nx + 2)"
      "cell nx i j + (nx + 2) = (i + 1) + (j + 2) * (nx + 2)"
      by (simp_all add: cell_def algebra_simps)
    have b: "0 \<le> i \<and> i \<le> nx + 1 \<and> 0 \<le> j + 1 \<and> j + 1 \<le> ny + 1"
      "0 \<le> i + 1 \<and> i + 1 \<le> nx + 1 \<and> 0 \<le> j + 1 \<and> j + 1 \<le> ny + 1"
      "0 \<le> i + 2 \<and> i + 2 \<le> nx + 1 \<and> 0 \<le> j + 1 \<and> j + 1 \<le> ny + 1"
      "0 \<le> i + 1 \<and> i + 1 \<le> nx + 1 \<and> 0 \<le> j \<and> j \<le> ny + 1"
      "0 \<le> i + 1 \<and> i + 1 \<le> nx + 1 \<and> 0 \<le> j + 2 \<and> j + 2 \<le> ny + 1"
      using that by simp_all
    show "x0 (cell nx i j - 1) = (if j + 1 = 0 \<or> j = ny then 1 else 0)"
      unfolding e(1) g[OF b(1)] by simp
    show "x0 (cell nx i j) = (if j + 1 = 0 \<or> j = ny then 1 else 0)"
      unfolding e(2) g[OF b(2)] by simp
    show "x0 (cell nx i j + 1) = (if j + 1 = 0 \<or> j = ny then 1 else 0)"
      unfolding e(3) g[OF b(3)] by simp
    show "x0 (cell nx i j - (nx + 2)) = (if j = 0 \<or> j = ny + 1 then 1 else 0)"
      unfolding e(4) g[OF b(4)] by simp
    show "x0 (cell nx i j + (nx + 2)) = (if j + 2 = 0 \<or> j + 1 = ny then 1 else 0)"
      unfolding e(5) g[OF b(5)] by simp
  qed
  {
    fix i
    assume a: "0 \<le> i \<and> i < nx"
    have "launch_diffusion (gdx, gdy) (bdx, bdy) x0 x1 nx ny 0.1 (cell nx i 0) =
            stencil x0 0.1 (nx + 2) (cell nx i 0)"
      using a assms by (intro launch_diffusion_interior) simp_all
    also have "\<dots> = 0.1"
      using a assms(2) by (simp add: stencil_def at)
    finally show "launch_diffusion (gdx, gdy) (bdx, bdy) x0 x1 nx ny 0.1 ((i + 1) + 1 * (nx + 2)) = 0.1"
      by (simp add: cell_def)
  }
  {
    fix i j
    assume a: "0 \<le> i \<and> i < nx \<and> 1 \<le> j \<and> j < ny - 1"
    have "launch_diffusion (gdx, gdy) (bdx, bdy) x0 x1 nx ny 0.1 (cell nx i j) =
            stencil x0 0.1 (nx + 2) (cell nx i j)"
      using a assms by (intro launch_diffusion_interior) simp_all
    also have "\<dots> = 0"
      using a by (simp add: stencil_def at)
    finally show "launch_diffusion (gdx, gdy) (bdx, bdy) x0 x1 nx ny 0.1 ((i + 1) + (j + 1) * (nx + 2)) = 0"
      by (simp add: cell_def)
  }
qed

theorem single_step_scenario_witness:
  "launch_diffusion (1, 1) (16, 16) (\<lambda>k. if k < 6 \<or> 30 \<le> k then 1 else 0) (\<lambda>_. 0) 4 4 0.1 7 = 0.1
   \<and> launch_diffusion (1, 1) (16, 16) (\<lambda>k. if k < 6 \<or> 30 \<le> k then 1 else 0) (\<lambda>_. 0) 4 4 0.1 10 = 0.1
   \<and> launch_diffusion (1, 1) (16, 16) (\<lambda>k. if k < 6 \<or> 30 \<le> k then 1 else 0) (\<lambda>_. 0) 4 4 0.1 13 = 0
   \<and> launch_diffusion (1, 1) (16, 16) (\<lambda>k. if k < 6 \<or> 30 \<le> k then 1 else 0) (\<lambda>_. 0) 4 4 0.1 22 = 0"
proof -
  let ?x0 = "\<lambda>k :: int. if k < 6 \<or> 30 \<le> k then 1 else 0 :: real"
  have h: "(0 :: int) \<le> 4" "(2 :: int) \<le> 4" "(4 + 2) * (4 + 2) \<le> (2 :: int) ^ 32"
    "(0 :: int) < 16" "(4 :: int) \<le> 16 * 1"
    by simp_all
  have grid: "\<forall>c r. 0 \<le> c \<and> c \<le> 4 + 1 \<and> 0 \<le> r \<and> r \<le> 4 + 1 \<longrightarrow>
           ?x0 (c + r * (4 + 2)) = (if r = 0 \<or> r = 4 + 1 then 1 else 0)"
    by auto
  note c = single_step_scenario[OF h(1) h(2) h(3) h(4) h(4) h(5) h(5) grid, of "\<lambda>_. 0"]
  note top = c[THEN conjunct1, THEN spec] and mid = c[THEN conjunct2, THEN spec, THEN spec]
  show ?thesis
    using top[of 0] top[of 3] mid[of 0 1] mid[of 3 2] by simp
qed


section \<open>Halo cells and boundary rows\<close>

text \<open>
  Claim C2.  For a padded grid that 32-bit indices address, neither kernel changes a
  halo cell, whatever the launch configuration: the cell in padded column \<open>c\<close> of
  padded row \<open>r\<close> keeps its value when \<open>r\<close> is row 0 or row \<open>ny+1\<close> or \<open>c\<close> is column 0 or
  column \<open>nx+1\<close>.  Consequently a run of \<open>main\<close> with \<open>pow \<le> 23\<close> (the heights whose buffer size fits
  the \<open>int\<close> count of \<open>fill_gpu\<close>), any number of steps and either strategy copies out
  a grid whose north and south boundary rows are exactly 1.
\<close>

theorem halo_never_written:
  assumes "0 \<le> nx" and "0 \<le> ny" and "(nx + 2) * (ny + 2) \<le> 2 ^ 32"
    and "0 \<le> c" and "c \<le> nx + 1" and "r = 0 \<or> r = ny + 1 \<or> c = 0 \<or> c = nx + 1"
    and "pow \<le> 23"
  shows "(\<forall>gridDim blockDim.
            launch_diffusion gridDim blockDim x0 x1 nx ny dt (c + r * (nx + 2)) = x1 (c + r * (nx + 2)))
       \<and> (\<forall>gridDim blockDim shared_size garbage.
            launch_diffusion_shared gridDim blockDim shared_size garbage x0 x1 nx ny dt
              (c + r * (nx + 2)) = x1 (c + r * (nx + 2)))
       \<and> (\<exists>out. main dev pow nsteps use_shared = Some out
             \<and> (\<forall>k. 0 \<le> k \<and> k < 130 \<longrightarrow>
                   x_host out ! nat k = 1 \<and> x_host out ! nat (130 * (2 ^ pow + 1) + k) = 1))"
proof (intro conjI allI)
  note h = halo_not_interior[OF assms(4-6)]
  show "launch_diffusion gridDim blockDim x0 x1 nx ny dt (c + r * (nx + 2)) = x1 (c + r * (nx + 2))"
    for gridDim blockDim
    by (rule launch_diffusion_frame[OF assms(1-3) h])
  show "launch_diffusion_shared gridDim blockDim shared_size garbage x0 x1 nx ny dt
            (c + r * (nx + 2)) = x1 (c + r * (nx + 2))"
    for gridDim blockDim shared_size garbage
    by (rule launch_shared_frame_any[OF assms(1-3) h])
  show "\<exists>out. main dev pow nsteps use_shared = Some out
             \<and> (\<forall>k. 0 \<le> k \<and> k < 130 \<longrightarrow>
                   x_host out ! nat k = 1 \<and> x_host out ! nat (130 * (2 ^ pow + 1) + k) = 1)"
    by (rule main_boundary[OF assms(7)])
qed

theorem halo_never_written_witness:
  "launch_diffusion (3, 7) (5, 5) (\<lambda>k. real_of_int k) (\<lambda>_. 7) 4 4 0.1 12 = 7
   \<and> launch_diffusion_shared (1, 1) (16, 16) 2592 (\<lambda>_ _. 0) (\<lambda>k. real_of_int k) (\<lambda>_. 7)
        4 4 0.1 12 = 7
   \<and> (\<exists>out. main \<lparr>shared_garbage = (\<lambda>_ _ _. 100),
                    malloc_x0 = (\<lambda>_. 5), malloc_x1 = (\<lambda>_. 6)\<rparr> 0 5 True = Some out
          \<and> x_host out ! 0 = 1 \<and> x_host out ! 129 = 1 \<and> x_host out ! 260 = 1)"
proof -
  have h: "(0 :: int) \<le> 4" "(4 + 2) * (4 + 2) \<le> (2 :: int) ^ 32"
    "(0 :: int) \<le> 0" "(0 :: int) \<le> 4 + 1"
    "(2 :: int) = 0 \<or> (2 :: int) = 4 + 1 \<or> (0 :: int) = 0 \<or> (0 :: int) = 4 + 1"
    "(0 :: nat) \<le> 23"
    by simp_all
  note c = halo_never_written[OF h(1) h(1) h(2) h(3) h(4) h(5) h(6),
      of "\<lambda>k. real_of_int k" "\<lambda>_. 7" "0.1"
         "\<lparr>shared_garbage = (\<lambda>_ _ _. 100),
                    malloc_x0 = (\<lambda>_. 5), malloc_x1 = (\<lambda>_. 6)\<rparr>" 5 True]
  have 1: "launch_diffusion (3, 7) (5, 5) (\<lambda>k. real_of_int k) (\<lambda>_. 7) 4 4 0.1 12 = 7"
    using c[THEN conjunct1, THEN spec, THEN spec, of "(3, 7)" "(5, 5)"] by simp
  have 2: "launch_diffusion_shared (1, 1) (16, 16) 2592 (\<lambda>_ _. 0) (\<lambda>k. real_of_int k) (\<lambda>_. 7)
        4 4 0.1 12 = 7"
    using c[THEN conjunct2, THEN conjunct1, THEN spec, THEN spec, THEN spec, THEN spec,
        of "(1, 1)" "(16, 16)" 2592 "\<lambda>_ _. 0"]
    by simp
  obtain out where o: "main \<lparr>shared_garbage = (\<lambda>_ _ _. 100),
                    malloc_x0 = (\<lambda>_. 5), malloc_x1 = (\<lambda>_. 6)\<rparr> 0 5 True = Some out"
    and b: "\<forall>k. 0 \<le> k \<and> k < 130 \<longrightarrow>
                   x_host out ! nat k = 1 \<and> x_host out ! nat (130 * (2 ^ 0 + 1) + k) = 1"
    using c[THEN conjunct2, THEN conjunct2] by blast
  have "x_host out ! 0 = 1" "x_host out ! 129 = 1" "x_host out ! 260 = 1"
    using b[THEN spec, of 0] b[THEN spec, of 129] by simp_all
  then show ?thesis using 1 2 o by simp
qed

section \<open>Zero steps\<close>

text \<open>
  Claim C7 says that with \<open>nsteps = 0\<close> the grid copied out is the initialised grid: 0
  in every cell outside the north and south boundary rows.  The program does not meet
  it at \<open>pow = 24\<close>: \<open>buffer_size = 130 * (2^24 + 2) = 2181038340\<close> does not fit the
  \<open>int\<close> count of \<open>fill_gpu\<close>, which receives \<open>-2113928956\<close>, so the fills of lines
  100 and 101 set no cell of the grid.  The boundary rows are filled, and every cell
  between them is copied out as the fresh allocation held it, here 5.
  (\<open>zero_step_initial_grid\<close> above is the statement for \<open>pow \<le> 23\<close>.)
\<close>

theorem zero_step_grid_not_zeroed:
  "\<exists>out. main \<lparr>shared_garbage = (\<lambda>_ _ _. 0), malloc_x0 = (\<lambda>_. 5), malloc_x1 = (\<lambda>_. 5)\<rparr> 24 0 False
            = Some out
         \<and> length (x_host out) = 2181038340
         \<and> x_host out ! 0 = 1 \<and> x_host out ! 130 = 5 \<and> x_host out ! 131 = 5"
proof -
  let ?m = "\<lambda>_ :: int. 5 :: real"
  let ?x = "fill_gpu 2181038210 1 130 (fill_gpu 0 1 130 (fill_gpu 0 0 (- 2113928956) ?m))"
  have b: "(0 :: int) \<le> 130" "(130 :: int) \<le> 2147483520" by simp_all
  have k0: "(0 :: int) \<le> 0" "(0 :: int) < 2181038340"
    and k1: "(0 :: int) \<le> 130" "(130 :: int) < 2181038340"
    and k2: "(0 :: int) \<le> 131" "(131 :: int) < 2181038340" by simp_all
  have "copy_to_host ?x 2181038340 ! nat 0 = 1"
    unfolding x_host_nth(1)[OF k0] by (simp add: fill_gpu_cell[OF b])
  moreover have "copy_to_host ?x 2181038340 ! nat 130 = 5"
    unfolding x_host_nth(1)[OF k1] by (simp add: unfilled_cell_24)
  moreover have "copy_to_host ?x 2181038340 ! nat 131 = 5"
    unfolding x_host_nth(1)[OF k2] by (simp add: unfilled_cell_24)
  moreover have "length (copy_to_host ?x 2181038340) = 2181038340"
    by (simp add: copy_to_host_def)
  ultimately show ?thesis unfolding main_zero_steps_24 by simp
qed

section \<open>Staged cells and the cells the update reads\<close>

text \<open>
  Claim C10.  For the launches of \<open>main\<close> (interior \<open>128 x 2^pow\<close>, blocks of
  \<open>16 x 16\<close>, \<open>pow \<le> 24\<close> so that 32-bit indices address the grid):

  \<^item> a thread that passes the guard writes the update formula evaluated on the five
    staging-buffer cells of \<open>diffusion_shared_reads\<close>, in that order, and a thread
    that fails the guard reads and writes nothing;

  \<^item> every staging-buffer cell that a thread reads after the barrier has been written
    by a thread of its block exactly when \<open>4 \<le> pow\<close>, that is when the height is a
    multiple of the block height;

  \<^item> for \<open>pow < 4\<close> every thread of the last interior row,
    \<open>threadIdx.y = 2^pow - 1\<close>, passes the guard and reads the cell below its own
    (\<open>buffer[shared_pos+shared_width]\<close>), which no thread has written, and the launch
    leaves in the cell of that thread the formula with the uninitialised content of
    that staging-buffer cell as its south operand;

  \<^item> for \<open>4 \<le> pow\<close> the result of the launch does not depend on what the shared
    memory held.
\<close>

theorem staging_reads_written:
  fixes x0 x1 :: "real array"
  assumes "pow \<le> 24"
  shows "(\<forall>b \<in> set (indices (8, (2 ^ pow + 15) div 16)). \<forall>t \<in> set (indices (16, 16)). \<forall>g buffer.
            diffusion_shared_compute g buffer 128 (2 ^ pow) dt (16, 16) b t x1 =
              (if reaches_syncthreads 128 (2 ^ pow) (16, 16) b t
               then let r = map (shared_read g buffer) (diffusion_shared_reads (16, 16) t)
                    in x1(cell 128 (fst t + fst b * 16) (snd t + snd b * 16) :=
                            r ! 0 + dt * (- 4 * r ! 0 + r ! 1 + r ! 2 + r ! 3 + r ! 4))
               else x1))
       \<and> ((\<forall>b \<in> set (indices (8, (2 ^ pow + 15) div 16)). \<forall>t \<in> set (indices (16, 16)).
             reaches_syncthreads 128 (2 ^ pow) (16, 16) b t \<longrightarrow>
             set (diffusion_shared_reads (16, 16) t) \<subseteq> dom (stage x0 128 (2 ^ pow) (16, 16) b))
          \<longleftrightarrow> 4 \<le> pow)
       \<and> (pow < 4 \<longrightarrow>
            (\<forall>bx tx. 0 \<le> bx \<and> bx < 8 \<and> 0 \<le> tx \<and> tx < 16 \<longrightarrow>
               reaches_syncthreads 128 (2 ^ pow) (16, 16) (bx, 0) (tx, 2 ^ pow - 1)
               \<and> diffusion_shared_reads (16, 16) (tx, 2 ^ pow - 1) ! 2
                   \<notin> dom (stage x0 128 (2 ^ pow) (16, 16) (bx, 0))
               \<and> (\<forall>garbage.
                    let P = cell 128 (tx + bx * 16) (2 ^ pow - 1)
                    in launch_diffusion_shared (8, (2 ^ pow + 15) div 16) (16, 16) 2592 garbage
                         x0 x1 128 (2 ^ pow) dt P =
                       x0 P + dt * (- 4 * x0 P + x0 (P - 130)
                         + garbage (bx, 0) (diffusion_shared_reads (16, 16) (tx, 2 ^ pow - 1) ! 2)
                         + x0 (P - 1) + x0 (P + 1)))))
       \<and> (4 \<le> pow \<longrightarrow>
            (\<forall>garbage garbage'.
               launch_diffusion_shared (8, (2 ^ pow + 15) div 16) (16, 16) 2592 garbage
                 x0 x1 128 (2 ^ pow) dt =
               launch_diffusion_shared (8, (2 ^ pow + 15) div 16) (16, 16) 2592 garbage'
                 x0 x1 128 (2 ^ pow) dt))"
proof -
  define n :: int where "n = 2 ^ pow"
  define gy where "gy = (n + 15) div 16"
  note hf = height_facts[OF assms n_def]
  note gr = grid_rows[OF hf(1), folded gy_def]
  have H: "(0 :: int) \<le> 128" "0 \<le> n" "(128 + 2) * (n + 2) \<le> 2 ^ 32"
    using hf by simp_all
  have B: "(0 :: int) < 16" "(16 + 2) * (16 + 2) \<le> (2 :: int) ^ 32" "(16 :: int) * 8 \<le> 2 ^ 32"
    "16 * gy \<le> 2 ^ 32"
    using gr(2) hf(2) by simp_all
  have C: "(128 :: int) \<le> 16 * 8" "n \<le> 16 * gy" using gr(1) by simp_all
  note rt = reaches_thread[OF H B(3,4)]
  note rs = reads_staged_iff[OF H B(1) B(1) B(2,3,4), of _ _ _ _ x0]
  have tie: "diffusion_shared_compute g buffer 128 n dt (16, 16) b t x1 =
              (if reaches_syncthreads 128 n (16, 16) b t
               then let r = map (shared_read g buffer) (diffusion_shared_reads (16, 16) t)
                    in x1(cell 128 (fst t + fst b * 16) (snd t + snd b * 16) :=
                            r ! 0 + dt * (- 4 * r ! 0 + r ! 1 + r ! 2 + r ! 3 + r ! 4))
               else x1)"
    if m: "b \<in> set (indices (8, gy))" "t \<in> set (indices (16, 16))" for b t g buffer
  proof -
    obtain bx "by" tx ty where b: "b = (bx, by)" and t: "t = (tx, ty)"
      by (metis surj_pair)
    have r: "0 \<le> bx" "bx < 8" "0 \<le> by" "by < gy" "0 \<le> tx" "tx < 16" "0 \<le> ty" "ty < 16"
      using m by (auto simp: b t set_indices)
    show ?thesis
      unfolding b t fst_conv snd_conv
      by (rule compute_reads[OF H B(1) B(1) B(2,3,4) r])
  qed
  have last: "reaches_syncthreads 128 n (16, 16) (bx, 0) (tx, n - 1)
               \<and> diffusion_shared_reads (16, 16) (tx, n - 1) ! 2 \<notin> dom (stage x0 128 n (16, 16) (bx, 0))
               \<and> (\<forall>garbage.
                    let P = cell 128 (tx + bx * 16) (n - 1)
                    in launch_diffusion_shared (8, gy) (16, 16) 2592 garbage x0 x1 128 n dt P =
                       x0 P + dt * (- 4 * x0 P + x0 (P - 130)
                         + garbage (bx, 0) (diffusion_shared_reads (16, 16) (tx, n - 1) ! 2)
                         + x0 (P - 1) + x0 (P + 1)))"
    if "pow < 4" and r: "0 \<le> bx" "bx < 8" "0 \<le> tx" "tx < 16" for bx tx
  proof -
    have n8: "n \<le> 8" using that(1) by (rule hf(4))
    have g1: "gy = 1" using n8 by (rule gr(4))
    have r': "(0 :: int) \<le> 0" "0 < gy" "0 \<le> n - 1" "n - 1 < 16"
      using g1 hf(1) n8 by simp_all
    have d: "tx + bx * 16 < 128" "n - 1 + 0 * 16 < n" using r by simp_all
    have i: "0 \<le> tx + bx * 16" "tx + bx * 16 < 128" "0 \<le> n - 1" "n - 1 < n"
      using r hf(1) by simp_all
    have 1: "reaches_syncthreads 128 n (16, 16) (bx, 0) (tx, n - 1)"
      using rt[OF r(1,2) r'(1,2) r(3,4) r'(3,4)] d by simp
    have 2: "diffusion_shared_reads (16, 16) (tx, n - 1) ! 2 \<notin> dom (stage x0 128 n (16, 16) (bx, 0))"
      using rs(2)[OF r(1,2) r'(1,2) r(3,4) r'(3,4) d] n8 by simp
    have rd: "diffusion_shared_reads (16, 16) (tx, n - 1) ! 2 = cell 16 tx (n - 1) + 18"
      unfolding reads_thread[OF B(1) B(1) B(2) r(3,4) r'(3,4)] by simp
    have 3: "let P = cell 128 (tx + bx * 16) (n - 1)
             in launch_diffusion_shared (8, gy) (16, 16) 2592 garbage x0 x1 128 n dt P =
                x0 P + dt * (- 4 * x0 P + x0 (P - 130)
                  + garbage (bx, 0) (diffusion_shared_reads (16, 16) (tx, n - 1) ! 2)
                  + x0 (P - 1) + x0 (P + 1))" for garbage
      unfolding rd Let_def launch_shared_interior[OF H B(1) B(1) B(2,3,4) C i]
      using last_row_value[OF r(1) r(3,4) d(1) hf(1) n8, of x0 garbage dt]
      by (simp add: Let_def)
    show ?thesis using 1 2 3 by blast
  qed
  have full: "set (diffusion_shared_reads (16, 16) t) \<subseteq> dom (stage x0 128 n (16, 16) b)"
    if "4 \<le> pow" and m: "b \<in> set (indices (8, gy))" "t \<in> set (indices (16, 16))"
      and g: "reaches_syncthreads 128 n (16, 16) b t" for b t
  proof -
    obtain bx "by" tx ty where b: "b = (bx, by)" and t: "t = (tx, ty)"
      by (metis surj_pair)
    have r: "0 \<le> bx" "bx < 8" "0 \<le> by" "by < gy" "0 \<le> tx" "tx < 16" "0 \<le> ty" "ty < 16"
      using m by (auto simp: b t set_indices)
    have e: "16 * gy = n" using hf(3)[OF that(1)] by (rule gr(3))
    have d: "tx + bx * 16 < 128" "ty + by * 16 < n" using r e by linarith+
    have "(tx = 16 - 1 \<or> tx + 1 + bx * 16 < 128) \<and> (ty = 16 - 1 \<or> ty + 1 + by * 16 < n)"
      using r e by linarith
    then show ?thesis unfolding b t using rs(1)[OF r d] by simp
  qed
  have indep: "launch_diffusion_shared (8, gy) (16, 16) 2592 garbage x0 x1 128 n dt =
               launch_diffusion_shared (8, gy) (16, 16) 2592 garbage' x0 x1 128 n dt"
    if "4 \<le> pow" for garbage garbage'
  proof -
    have d: "(16 :: int) dvd 128" "16 dvd n" using hf(3)[OF that] by simp_all
    note e = tiled_equals_naive_aligned[OF H B(1) B(1) B(2,3,4) C d, of 2592 _ x0 x1 dt]
    show ?thesis unfolding e by (rule refl)
  qed
  have iff: "(\<forall>b \<in> set (indices (8, gy)). \<forall>t \<in> set (indices (16, 16)).
             reaches_syncthreads 128 n (16, 16) b t \<longrightarrow>
             set (diffusion_shared_reads (16, 16) t) \<subseteq> dom (stage x0 128 n (16, 16) b))
          \<longleftrightarrow> 4 \<le> pow"
  proof
    assume a: "\<forall>b \<in> set (indices (8, gy)). \<forall>t \<in> set (indices (16, 16)).
             reaches_syncthreads 128 n (16, 16) b t \<longrightarrow>
             set (diffusion_shared_reads (16, 16) t) \<subseteq> dom (stage x0 128 n (16, 16) b)"
    show "4 \<le> pow"
    proof (rule ccontr)
      assume "\<not> 4 \<le> pow"
      then have p: "pow < 4" by simp
      have n8: "n \<le> 8" using p by (rule hf(4))
      have g1: "gy = 1" using n8 by (rule gr(4))
      have m: "(0, 0) \<in> set (indices (8, gy))" "(0, n - 1) \<in> set (indices (16, 16))"
        using g1 hf(1) n8 by (simp_all add: set_indices)
      have l: "reaches_syncthreads 128 n (16, 16) (0, 0) (0, n - 1)
               \<and> diffusion_shared_reads (16, 16) (0, n - 1) ! 2 \<notin> dom (stage x0 128 n (16, 16) (0, 0))"
        using last[OF p, of 0 0] by simp
      have "set (diffusion_shared_reads (16, 16) (0, n - 1)) \<subseteq> dom (stage x0 128 n (16, 16) (0, 0))"
        using a m l by blast
      moreover have "diffusion_shared_reads (16, 16) (0, n - 1) ! 2
                       \<in> set (diffusion_shared_reads (16, 16) (0, n - 1))"
        by (simp add: Let_def)
      ultimately show False using l by auto
    qed
  next
    assume "4 \<le> pow"
    then show "\<forall>b \<in> set (indices (8, gy)). \<forall>t \<in> set (indices (16, 16)).
             reaches_syncthreads 128 n (16, 16) b t \<longrightarrow>
             set (diffusion_shared_reads (16, 16) t) \<subseteq> dom (stage x0 128 n (16, 16) b)"
      using full by blast
  qed
  have c1: "\<forall>b \<in> set (indices (8, gy)). \<forall>t \<in> set (indices (16, 16)). \<forall>g buffer.
            diffusion_shared_compute g buffer 128 n dt (16, 16) b t x1 =
              (if reaches_syncthreads 128 n (16, 16) b t
               then let r = map (shared_read g buffer) (diffusion_shared_reads (16, 16) t)
                    in x1(cell 128 (fst t + fst b * 16) (snd t + snd b * 16) :=
                            r ! 0 + dt * (- 4 * r ! 0 + r ! 1 + r ! 2 + r ! 3 + r ! 4))
               else x1)"
    using tie by blast
  have c3: "pow < 4 \<longrightarrow>
            (\<forall>bx tx. 0 \<le> bx \<and> bx < 8 \<and> 0 \<le> tx \<and> tx < 16 \<longrightarrow>
               reaches_syncthreads 128 n (16, 16) (bx, 0) (tx, n - 1)
               \<and> diffusion_shared_reads (16, 16) (tx, n - 1) ! 2
                   \<notin> dom (stage x0 128 n (16, 16) (bx, 0))
               \<and> (\<forall>garbage.
                    let P = cell 128 (tx + bx * 16) (n - 1)
                    in launch_diffusion_shared (8, gy) (16, 16) 2592 garbage x0 x1 128 n dt P =
                       x0 P + dt * (- 4 * x0 P + x0 (P - 130)
                         + garbage (bx, 0) (diffusion_shared_reads (16, 16) (tx, n - 1) ! 2)
                         + x0 (P - 1) + x0 (P + 1))))"
    using last by blast
  have c4: "4 \<le> pow \<longrightarrow>
            (\<forall>garbage garbage'.
               launch_diffusion_shared (8, gy) (16, 16) 2592 garbage x0 x1 128 n dt =
               launch_diffusion_shared (8, gy) (16, 16) 2592 garbage' x0 x1 128 n dt)"
    using indep by blast
  show ?thesis using c1 iff c3 c4 unfolding gy_def n_def by (intro conjI)
qed

theorem staging_reads_written_witness:
  "reaches_syncthreads 128 (2 ^ 3) (16, 16) (0, 0) (0, 2 ^ 3 - 1)
   \<and> diffusion_shared_reads (16, 16) (0, 2 ^ 3 - 1) ! 2
       \<notin> dom (stage (\<lambda>_. 0) 128 (2 ^ 3) (16, 16) (0, 0))
   \<and> set (diffusion_shared_reads (16, 16) (0, 15)) \<subseteq> dom (stage (\<lambda>_. 0) 128 (2 ^ 4) (16, 16) (0, 0))
   \<and> diffusion_shared_compute (\<lambda>k. real_of_int (k * k)) Map.empty 128 (2 ^ 3) (1 / 10) (16, 16)
       (0, 0) (0, 7) (\<lambda>_. 7) 1041 = 21090
   \<and> launch_diffusion_shared (8, (2 ^ 3 + 15) div 16) (16, 16) 2592 (\<lambda>_ _. 100)
       (\<lambda>_. 0) (\<lambda>_. 7) 128 (2 ^ 3) (1 / 10) 1041 = 10
   \<and> launch_diffusion_shared (8, (2 ^ 4 + 15) div 16) (16, 16) 2592 (\<lambda>_ _. 100)
       (\<lambda>_. 0) (\<lambda>_. 7) 128 (2 ^ 4) (1 / 10)
     = launch_diffusion_shared (8, (2 ^ 4 + 15) div 16) (16, 16) 2592 (\<lambda>_ _. 0)
       (\<lambda>_. 0) (\<lambda>_. 7) 128 (2 ^ 4) (1 / 10)"
proof -
  have h3: "(3 :: nat) \<le> 24" and h4: "(4 :: nat) \<le> 24" by simp_all
  note t3 = staging_reads_written[OF h3, where ?x0.0 = "\<lambda>_. 0" and ?x1.0 = "\<lambda>_. 7" and dt = "1 / 10"]
  note t4 = staging_reads_written[OF h4, where ?x0.0 = "\<lambda>_. 0" and ?x1.0 = "\<lambda>_. 7" and dt = "1 / 10"]
  note tie = t3[THEN conjunct1]
  note c3 = t3[THEN conjunct2, THEN conjunct2, THEN conjunct1]
  note c4 = t4[THEN conjunct2, THEN conjunct1]
  note ind = t4[THEN conjunct2, THEN conjunct2, THEN conjunct2]
  have last: "reaches_syncthreads 128 (2 ^ 3) (16, 16) (0, 0) (0, 2 ^ 3 - 1)
     \<and> diffusion_shared_reads (16, 16) (0, 2 ^ 3 - 1) ! 2
         \<notin> dom (stage (\<lambda>_. 0) 128 (2 ^ 3) (16, 16) (0, 0))
     \<and> (\<forall>garbage.
          let P = cell 128 (0 + 0 * 16) (2 ^ 3 - 1)
          in launch_diffusion_shared (8, (2 ^ 3 + 15) div 16) (16, 16) 2592 garbage
               (\<lambda>_. 0) (\<lambda>_. 7) 128 (2 ^ 3) (1 / 10) P =
             (\<lambda>_. 0) P + (1 / 10) * (- 4 * (\<lambda>_. 0) P + (\<lambda>_. 0) (P - 130)
               + garbage (0, 0) (diffusion_shared_reads (16, 16) (0, 2 ^ 3 - 1) ! 2)
               + (\<lambda>_. 0) (P - 1) + (\<lambda>_. 0) (P + 1)))"
    using c3 by (elim impE allE[of _ 0]) simp_all
  have 1: "reaches_syncthreads 128 (2 ^ 3) (16, 16) (0, 0) (0, 2 ^ 3 - 1)"
    and 2: "diffusion_shared_reads (16, 16) (0, 2 ^ 3 - 1) ! 2
         \<notin> dom (stage (\<lambda>_. 0) 128 (2 ^ 3) (16, 16) (0, 0))"
    using last by blast+
  have 5: "launch_diffusion_shared (8, (2 ^ 3 + 15) div 16) (16, 16) 2592 (\<lambda>_ _. 100)
       (\<lambda>_. 0) (\<lambda>_. 7) 128 (2 ^ 3) (1 / 10) 1041 = 10"
    using last[THEN conjunct2, THEN conjunct2, THEN spec, of "\<lambda>_ _. 100"]
    by (simp add: Let_def cell_def)
  have m: "(0, 0) \<in> set (indices (8, (2 ^ 4 + 15) div 16))" "(0, 15) \<in> set (indices (16, 16))"
    by (simp_all add: set_indices)
  have r: "reaches_syncthreads 128 (2 ^ 4) (16, 16) (0, 0) (0, 15)"
    by (simp add: u32_def)
  have "\<forall>b \<in> set (indices (8, (2 ^ 4 + 15) div 16)). \<forall>t \<in> set (indices (16, 16)).
             reaches_syncthreads 128 (2 ^ 4) (16, 16) b t \<longrightarrow>
             set (diffusion_shared_reads (16, 16) t) \<subseteq> dom (stage (\<lambda>_. 0) 128 (2 ^ 4) (16, 16) b)"
    using c4 by simp
  then have 3: "set (diffusion_shared_reads (16, 16) (0, 15)) \<subseteq> dom (stage (\<lambda>_. 0) 128 (2 ^ 4) (16, 16) (0, 0))"
    using m r by blast
  have m3: "(0, 0) \<in> set (indices (8, (2 ^ 3 + 15) div 16))" "(0, 7) \<in> set (indices (16, 16))"
    by (simp_all add: set_indices)
  have rd: "diffusion_shared_reads (16, 16) (0, 7) = [145, 127, 163, 144, 146]"
    by (simp add: u32_def)
  have "diffusion_shared_compute (\<lambda>k. real_of_int (k * k)) Map.empty 128 (2 ^ 3) (1 / 10) (16, 16)
       (0, 0) (0, 7) (\<lambda>_. 7) =
     (if reaches_syncthreads 128 (2 ^ 3) (16, 16) (0, 0) (0, 7)
      then let r = map (shared_read (\<lambda>k. real_of_int (k * k)) Map.empty)
                     (diffusion_shared_reads (16, 16) (0, 7))
           in (\<lambda>_. 7)(cell 128 (fst (0 :: int, 7 :: int) + fst (0 :: int, 0 :: int) * 16)
                          (snd (0 :: int, 7 :: int) + snd (0 :: int, 0 :: int) * 16) :=
                   r ! 0 + (1 / 10) * (- 4 * r ! 0 + r ! 1 + r ! 2 + r ! 3 + r ! 4))
      else (\<lambda>_. 7))"
    using tie m3 by blast
  then have 4: "diffusion_shared_compute (\<lambda>k. real_of_int (k * k)) Map.empty 128 (2 ^ 3) (1 / 10) (16, 16)
       (0, 0) (0, 7) (\<lambda>_. 7) 1041 = 21090"
    using 1 unfolding rd by (simp add: Let_def cell_def shared_read_def)
  have 6: "launch_diffusion_shared (8, (2 ^ 4 + 15) div 16) (16, 16) 2592 (\<lambda>_ _. 100)
       (\<lambda>_. 0) (\<lambda>_. 7) 128 (2 ^ 4) (1 / 10)
     = launch_diffusion_shared (8, (2 ^ 4 + 15) div 16) (16, 16) 2592 (\<lambda>_ _. 0)
       (\<lambda>_. 0) (\<lambda>_. 7) 128 (2 ^ 4) (1 / 10)"
    using ind by blast
  show ?thesis using 1 2 3 4 5 6 by (intro conjI)
qed

section \<open>The barrier in a partial block\<close>

text \<open>
  Claim C9 says that every thread of every launched block reaches \<open>__syncthreads()\<close>.
  The program does not meet it for \<open>pow < 4\<close>: at \<open>pow = 3\<close> the grid has the one block
  row \<open>blockIdx.y = 0\<close>, whose thread \<open>(0, 7)\<close> reaches the barrier and whose thread
  \<open>(0, 8)\<close> fails the guard of line 44 and skips it.  (\<open>barrier_reached_full_blocks\<close>
  above is the statement for \<open>4 \<le> pow\<close>.)
\<close>

theorem barrier_skipped_in_partial_block:
  "(0, 0) \<in> set (indices (8, (2 ^ 3 + 15) div 16))
   \<and> (0, 7) \<in> set (indices (16, 16)) \<and> (0, 8) \<in> set (indices (16, 16))
   \<and> reaches_syncthreads 128 (2 ^ 3) (16, 16) (0, 0) (0, 7)
   \<and> \<not> reaches_syncthreads 128 (2 ^ 3) (16, 16) (0, 0) (0, 8)"
  by (simp add: set_indices u32_def)

section \<open>The two strategies on a partial block\<close>

text \<open>
  Claim C1 says that the naive and the tiled kernel produce the same grid.  The program
  does not meet it for \<open>pow < 4\<close>: at \<open>pow = 3\<close>, one step, on a device whose shared
  memory holds zeros, the first cell of the last interior row (linear index
  \<open>1 + 8 * 130 = 1041\<close>) ends at 0 under the tiled strategy and at 0.1 under the naive
  one.  (\<open>strategies_agree_full_blocks\<close> above is the agreement for \<open>4 \<le> pow\<close>.)
\<close>

theorem strategies_differ_on_partial_block:
  "\<exists>tiled naive.
      main \<lparr>shared_garbage = (\<lambda>_ _ _. 0),
            malloc_x0 = (\<lambda>_. 0), malloc_x1 = (\<lambda>_. 0)\<rparr> 3 1 True = Some tiled
    \<and> main \<lparr>shared_garbage = (\<lambda>_ _ _. 0),
            malloc_x0 = (\<lambda>_. 0), malloc_x1 = (\<lambda>_. 0)\<rparr> 3 1 False = Some naive
    \<and> x_host tiled ! 1041 = 0 \<and> x_host naive ! 1041 = 0.1"
proof -
  let ?dev = "\<lparr>shared_garbage = (\<lambda>_ _ _. 0 :: real),
             malloc_x0 = (\<lambda>_. 0 :: real), malloc_x1 = (\<lambda>_. 0 :: real)\<rparr>"
  show ?thesis using one_step_last_row[of ?dev] by auto
qed

section \<open>The maximum principle on a partial block\<close>

text \<open>
  Claim C5 says that every interior value stays within \<open>[0, 1]\<close> for either strategy.
  The program does not meet it for the tiled strategy and \<open>pow < 4\<close>: at \<open>pow = 3\<close>,
  one step, on a device whose shared memory holds the value 100, the cell with linear
  index 1041 ends at 10.  (\<open>maximum_principle_full_blocks\<close> above is the statement
  for the naive strategy and for the tiled one with \<open>4 \<le> pow\<close>.)
\<close>

theorem tiled_leaves_unit_interval:
  "\<exists>out. main \<lparr>shared_garbage = (\<lambda>_ _ _. 100),
                malloc_x0 = (\<lambda>_. 0), malloc_x1 = (\<lambda>_. 0)\<rparr> 3 1 True = Some out
         \<and> x_host out ! 1041 = 10"
proof -
  let ?dev = "\<lparr>shared_garbage = (\<lambda>_ _ _. 100 :: real),
             malloc_x0 = (\<lambda>_. 0 :: real), malloc_x1 = (\<lambda>_. 0 :: real)\<rparr>"
  show ?thesis using one_step_last_row(1)[of ?dev] by auto
qed

end
